theory Spec2Isabelle
  imports Main
begin

section \<open>Text: characters, lines and the library functions the module calls\<close>

text \<open>
  The module \<^verbatim>\<open>grains/abaqus.py\<close> works on Python \<^verbatim>\<open>str\<close> values. A character is
  modelled by \<^typ>\<open>char\<close>, read as the code point of the same number, so the model covers
  files whose characters lie in U+0000..U+00FF. A file is the text Python hands to the
  program in text mode.
\<close>

definition newline :: char where
  "newline = CHR ''\<newline>''"

text \<open>The class \<^verbatim>\<open>\s\<close> of \<^verbatim>\<open>re\<close> on \<^verbatim>\<open>str\<close> patterns, for code points below 256.\<close>

definition is_space :: "char \<Rightarrow> bool" where
  "is_space c =
     (let n = (of_char c :: nat)
      in (9 \<le> n \<and> n \<le> 13) \<or> (28 \<le> n \<and> n \<le> 32) \<or> n = 133 \<or> n = 160)"

text \<open>The class \<^verbatim>\<open>\w\<close> of \<^verbatim>\<open>re\<close> on \<^verbatim>\<open>str\<close> patterns, for code points below 256.\<close>

definition is_word :: "char \<Rightarrow> bool" where
  "is_word c =
     (let n = (of_char c :: nat)
      in (48 \<le> n \<and> n \<le> 57) \<or> (65 \<le> n \<and> n \<le> 90) \<or> n = 95 \<or> (97 \<le> n \<and> n \<le> 122)
         \<or> n = 170 \<or> n = 178 \<or> n = 179 \<or> n = 181 \<or> n = 185 \<or> n = 186
         \<or> (188 \<le> n \<and> n \<le> 190) \<or> (192 \<le> n \<and> n \<le> 214) \<or> (216 \<le> n \<and> n \<le> 246)
         \<or> 248 \<le> n)"

text \<open>The class \<^verbatim>\<open>[\w-]\<close>.\<close>

definition is_name_char :: "char \<Rightarrow> bool" where
  "is_name_char c = (is_word c \<or> c = CHR ''-'')"

text \<open>
  \<^verbatim>\<open>re.IGNORECASE\<close> on a pattern of ASCII letters and punctuation: below code point 256 a
  text character matches a lower-case pattern letter exactly when it is that letter or its
  ASCII capital, and matches a punctuation character exactly when it is equal to it.
\<close>

definition lower_ascii :: "char \<Rightarrow> char" where
  "lower_ascii c =
     (let n = (of_char c :: nat) in if 65 \<le> n \<and> n \<le> 90 then char_of (n + 32) else c)"

definition match_ignorecase :: "string \<Rightarrow> string \<Rightarrow> bool" where
  "match_ignorecase pat line =
     (length pat \<le> length line \<and> map lower_ascii (take (length pat) line) = pat)"

text \<open>\<^verbatim>\<open>re.compile('^\*\s?\w').match(line)\<close>\<close>

definition generalkeyword :: "string \<Rightarrow> bool" where
  "generalkeyword line =
     (case line of
        a # b # rest \<Rightarrow>
          a = CHR ''*'' \<and>
          (is_word b \<or> (is_space b \<and> (case rest of c # _ \<Rightarrow> is_word c | [] \<Rightarrow> False)))
      | _ \<Rightarrow> False)"

text \<open>\<^verbatim>\<open>re.compile('^[\s]?\*\*').match(line)\<close>\<close>

definition comment :: "string \<Rightarrow> bool" where
  "comment line =
     (take 2 line = ''**'' \<or>
      (case line of s # rest \<Rightarrow> is_space s \<and> take 2 rest = ''**'' | [] \<Rightarrow> False))"

text \<open>
  \<^verbatim>\<open>re.compile('\*material, name=([\w-]+)', re.IGNORECASE).match(line)\<close>: the result is
  \<^verbatim>\<open>group(1)\<close> when the line matches, \<open>None\<close> otherwise.
\<close>

definition material :: "string \<Rightarrow> string option" where
  "material line =
     (if match_ignorecase ''*material, name='' line
      then (let g = takeWhile is_name_char (drop 16 line) in if g = [] then None else Some g)
      else None)"

text \<open>
  \<^verbatim>\<open>re.compile('\*(plastic|elastic)', re.IGNORECASE).match(line)\<close>: \<^verbatim>\<open>group(1)\<close> is the
  matched text as the line spells it.
\<close>

definition behavior :: "string \<Rightarrow> string option" where
  "behavior line =
     (if match_ignorecase ''*plastic'' line \<or> match_ignorecase ''*elastic'' line
      then Some (take 7 (drop 1 line))
      else None)"

text \<open>\<^verbatim>\<open>re.compile('\*node', re.IGNORECASE).match(line)\<close>\<close>

definition node :: "string \<Rightarrow> bool" where
  "node line = match_ignorecase ''*node'' line"

text \<open>\<^verbatim>\<open>s.split(',')\<close>: never empty, \<^verbatim>\<open>''.split(',') == ['']\<close>.\<close>

fun split_comma :: "string \<Rightarrow> string list" where
  "split_comma [] = [[]]"
| "split_comma (c # cs) =
     (if c = CHR '','' then [] # split_comma cs
      else (case split_comma cs of f # fs \<Rightarrow> (c # f) # fs | [] \<Rightarrow> [[c]]))"

text \<open>\<^verbatim>\<open>','.join(fields)\<close>\<close>

fun join_comma :: "string list \<Rightarrow> string" where
  "join_comma [] = []"
| "join_comma [f] = f"
| "join_comma (f # g # fs) = f @ CHR '','' # join_comma (g # fs)"

text \<open>
  Iterating over a text file, and \<^verbatim>\<open>readlines()\<close>: the text is cut after every newline,
  each line keeps its newline, and a last line without one is kept as it is.
\<close>

fun readlines :: "string \<Rightarrow> string list" where
  "readlines [] = []"
| "readlines (c # cs) =
     (if c = newline then [c] # readlines cs
      else (case readlines cs of [] \<Rightarrow> [[c]] | l # ls \<Rightarrow> (c # l) # ls))"

text \<open>The slices \<^verbatim>\<open>xs[0:n]\<close> and \<^verbatim>\<open>xs[n:]\<close>; a negative bound counts from the end.\<close>

definition slice_to :: "int \<Rightarrow> 'a list \<Rightarrow> 'a list" where
  "slice_to n xs = (if 0 \<le> n then take (nat n) xs else take (length xs - nat (- n)) xs)"

definition slice_from :: "int \<Rightarrow> 'a list \<Rightarrow> 'a list" where
  "slice_from n xs = (if 0 \<le> n then drop (nat n) xs else drop (length xs - nat (- n)) xs)"

text \<open>
  \<^verbatim>\<open>os.path.splitext\<close> as \<^verbatim>\<open>posixpath\<close> implements it: the extension starts at the last dot
  of the last path component, unless only dots come before that dot in the component.
\<close>

definition splitext :: "string \<Rightarrow> string \<times> string" where
  "splitext p =
     (let base = rev (takeWhile (\<lambda>c. c \<noteq> CHR ''/'') (rev p));
          stem = dropWhile (\<lambda>c. c = CHR ''.'') base
      in if CHR ''.'' \<in> set stem
         then (let n = length p - Suc (length (takeWhile (\<lambda>c. c \<noteq> CHR ''.'') (rev p)))
               in (take n p, drop n p))
         else (p, []))"

text \<open>\<^verbatim>\<open>str(i)\<close> for a non-negative integer.\<close>

fun str_nat :: "nat \<Rightarrow> string" where
  "str_nat n =
     (if n < 10 then [char_of (48 + n)]
      else str_nat (n div 10) @ [char_of (48 + n mod 10)])"

declare str_nat.simps [simp del]

text \<open>
  A dictionary keeps its keys in insertion order; assigning to a key that is present
  replaces the value where it stands.
\<close>

fun dict_set :: "'k \<Rightarrow> 'v \<Rightarrow> ('k \<times> 'v) list \<Rightarrow> ('k \<times> 'v) list" where
  "dict_set k v [] = [(k, v)]"
| "dict_set k v ((k', v') # d) =
     (if k' = k then (k, v) # d else (k', v') # dict_set k v d)"

section \<open>Data model\<close>

type_synonym row = "string list"
type_synonym behaviors = "(string \<times> row list) list"
type_synonym hierarchy = "(string \<times> behaviors) list"

text \<open>The file system seen by the module: the text of every existing file.\<close>

type_synonym files = "string \<Rightarrow> string option"

text \<open>
  The exceptions the module raises. The module raises plain \<^verbatim>\<open>Exception\<close>s told apart by
  their message; the interpreter raises the others.
\<close>

datatype error =
    AlreadyPopulated      \<comment> \<open>'Material database already exists. ...'\<close>
  | FileNotFound          \<comment> \<open>'File does not exist.', or \<^verbatim>\<open>open\<close> failing\<close>
  | EmptyFile             \<comment> \<open>'Input file is empty.'\<close>
  | EmptyDatabase         \<comment> \<open>'Material does not exist. Nothing to write.'\<close>
  | EmptyGeometry         \<comment> \<open>'Geometry does not exist. Load it first with the `read` method.'\<close>
  | UnboundLocalError string
  | KeyError string
  | TypeError
  | ValueError string

text \<open>
  An instance of class \<^verbatim>\<open>Material\<close>. The dictionary \<^verbatim>\<open>self.state\<close> has the three keys
  \<^verbatim>\<open>'begin'\<close>, \<^verbatim>\<open>'end'\<close>, \<^verbatim>\<open>'read'\<close>; \<open>None\<close> is Python's \<^verbatim>\<open>None\<close>.
\<close>

record Material =
  inp_file :: string
  state_begin :: "int option"
  state_end :: "int option"
  state_read :: bool
  materials :: hierarchy
  is_greedy :: bool

definition Material_init :: "bool \<Rightarrow> Material" where
  "Material_init from_Abaqus =
     \<lparr>inp_file = [], state_begin = None, state_end = None, state_read = False,
      materials = [], is_greedy = from_Abaqus\<rparr>"

definition add_material :: "string \<Rightarrow> Material \<Rightarrow> Material" where
  "add_material name m =
     (if name \<in> fst ` set (materials m) then m
      else m\<lparr>materials := dict_set name [] (materials m)\<rparr>)"

text \<open>\<^verbatim>\<open>validate_file(file, 'read')\<close> and \<^verbatim>\<open>validate_file(file, 'write')\<close> for a \<^verbatim>\<open>str\<close> path;
  the messages they print are left out.\<close>

definition validate_file_read :: "files \<Rightarrow> string \<Rightarrow> error option" where
  "validate_file_read fs file =
     (case fs file of
        None \<Rightarrow> Some FileNotFound
      | Some text \<Rightarrow> if text = [] then Some EmptyFile else None)"

definition validate_file_write :: "files \<Rightarrow> string \<Rightarrow> error option" where
  "validate_file_write fs file = None"

section \<open>Material.read\<close>

text \<open>
  The local variables of \<^verbatim>\<open>read\<close> that live across iterations; \<open>None\<close> is a variable
  not bound yet. \<^verbatim>\<open>end\<close> is bound only by the \<^verbatim>\<open>break\<close> branch.
\<close>

record locals =
  l_in_material :: bool
  l_begin :: "int option"
  l_end :: "int option"
  l_material_name :: "string option"
  l_behavior_name :: "string option"
  l_materials :: hierarchy

definition locals_init :: locals where
  "locals_init =
     \<lparr>l_in_material = False, l_begin = None, l_end = None, l_material_name = None,
      l_behavior_name = None, l_materials = []\<rparr>"

datatype 'a outcome = Continue 'a | Break 'a | Raise error

text \<open>One iteration of the loop of \<^verbatim>\<open>Material.read\<close>, on line \<open>line\<close> with index \<open>line_number\<close>.\<close>

definition material_step :: "bool \<Rightarrow> int \<Rightarrow> string \<Rightarrow> locals \<Rightarrow> locals outcome" where
  "material_step greedy line_number line s =
     (let is_generalkeyword = generalkeyword line;
          is_material = material line;
          is_behavior = behavior line;
          is_comment = comment line;
          is_parameter = (\<not> is_generalkeyword \<and> \<not> is_comment);
          is_material_param = (is_parameter \<and> l_in_material s)
      in case is_material of
           Some name \<Rightarrow>
             Continue
               ((if l_in_material s then s
                 else s\<lparr>l_in_material := True, l_begin := Some line_number\<rparr>)
                \<lparr>l_material_name := Some name,
                 l_materials := dict_set name [] (l_materials s)\<rparr>)
         | None \<Rightarrow>
             (case is_behavior of
                Some bname \<Rightarrow>
                  (case l_material_name s of
                     None \<Rightarrow> Raise (UnboundLocalError ''material_name'')
                   | Some mname \<Rightarrow>
                       (case map_of (l_materials s) mname of
                          None \<Rightarrow> Raise (KeyError mname)
                        | Some bs \<Rightarrow>
                            Continue
                              (s\<lparr>l_behavior_name := Some bname,
                                 l_materials :=
                                   dict_set mname (dict_set bname [] bs) (l_materials s)\<rparr>)))
              | None \<Rightarrow>
                  if is_material_param then
                    (let params = split_comma (butlast line)
                     in case l_material_name s of
                          None \<Rightarrow> Raise (UnboundLocalError ''material_name'')
                        | Some mname \<Rightarrow>
                            (case map_of (l_materials s) mname of
                               None \<Rightarrow> Raise (KeyError mname)
                             | Some bs \<Rightarrow>
                                 (case l_behavior_name s of
                                    None \<Rightarrow> Raise (UnboundLocalError ''behavior_name'')
                                  | Some bname \<Rightarrow>
                                      (case map_of bs bname of
                                         None \<Rightarrow> Raise (KeyError bname)
                                       | Some rows \<Rightarrow>
                                           Continue
                                             (s\<lparr>l_materials :=
                                                  dict_set mname
                                                    (dict_set bname (rows @ [params]) bs)
                                                    (l_materials s)\<rparr>)))))
                  else if (is_generalkeyword \<or> is_comment) \<and> l_in_material s \<and> greedy then
                    Break (s\<lparr>l_end := Some (line_number - 1)\<rparr>)
                  else Continue s))"

text \<open>
  The loop over the lines from index \<open>i\<close> on: \<open>Continue\<close> when the lines are used up,
  \<open>Break\<close> when the loop was left early, \<open>Raise\<close> when an iteration raised.
\<close>

fun material_loop :: "bool \<Rightarrow> int \<Rightarrow> string list \<Rightarrow> locals \<Rightarrow> locals outcome" where
  "material_loop greedy i [] s = Continue s"
| "material_loop greedy i (line # rest) s =
     (case material_step greedy i line s of
        Continue s' \<Rightarrow> material_loop greedy (i + 1) rest s'
      | Break s' \<Rightarrow> Break s'
      | Raise e \<Rightarrow> Raise e)"

text \<open>
  The statements of \<^verbatim>\<open>Material.read\<close> after the loop, for a file of \<open>n\<close> lines:
  \<^verbatim>\<open>end\<close> defaults to \<^verbatim>\<open>line_number\<close>, the index of the last line, when the loop did not
  bind it; then the attributes are stored in the order of the source, so a store that
  raises leaves the earlier stores done.
\<close>

definition material_store :: "string \<Rightarrow> nat \<Rightarrow> locals \<Rightarrow> Material \<Rightarrow> error option \<times> Material" where
  "material_store file n s m =
     (case (case l_end s of
              Some e \<Rightarrow> Some e
            | None \<Rightarrow> if n = 0 then None else Some (int n - 1)) of
        None \<Rightarrow> (Some (UnboundLocalError ''line_number''), m)
      | Some e \<Rightarrow>
          (let m1 = m\<lparr>inp_file := file, materials := l_materials s\<rparr>
           in case l_begin s of
                None \<Rightarrow> (Some (UnboundLocalError ''begin''), m1)
              | Some b \<Rightarrow>
                  (None, m1\<lparr>state_begin := Some b, state_end := Some e, state_read := True\<rparr>)))"

text \<open>
  \<^verbatim>\<open>Material.read\<close>: the result is the exception raised, if any, and the instance as the
  call leaves it.
\<close>

definition Material_read :: "files \<Rightarrow> string \<Rightarrow> Material \<Rightarrow> error option \<times> Material" where
  "Material_read fs file m =
     (if state_read m then (Some AlreadyPopulated, m)
      else case validate_file_read fs file of
        Some e \<Rightarrow> (Some e, m)
      | None \<Rightarrow>
          (case fs file of
             None \<Rightarrow> (Some FileNotFound, m)
           | Some text \<Rightarrow>
               (let lines = readlines text
                in case material_loop (is_greedy m) 0 lines locals_init of
                     Raise e \<Rightarrow> (Some e, m)
                   | Break s \<Rightarrow> material_store file (length lines) s m
                   | Continue s \<Rightarrow> material_store file (length lines) s m)))"

section \<open>Material.__format, Material.write and Material.remove\<close>

text \<open>
  \<^verbatim>\<open>Material.__format\<close>: three nested loops over \<^verbatim>\<open>self.materials\<close>, each appending one line
  to the list built so far, over the materials, the behaviors of a material and the rows
  of a behavior. The three lines are \<^verbatim>\<open>'*Material, name={0}\n'.format(material_name)\<close>,
  \<^verbatim>\<open>'*{0}\n'.format(behavior_name)\<close> and \<^verbatim>\<open>','.join(parameter) + '\n'\<close>.
\<close>

definition material_line :: "string \<Rightarrow> string" where
  "material_line material_name = ''*Material, name='' @ material_name @ [newline]"

definition behavior_line :: "string \<Rightarrow> string" where
  "behavior_line behavior_name = ''*'' @ behavior_name @ [newline]"

definition row_line :: "row \<Rightarrow> string" where
  "row_line parameter = join_comma parameter @ [newline]"

definition Material_format :: "Material \<Rightarrow> string list" where
  "Material_format self =
     foldl (\<lambda>abaqus_format (material_name, behaviors).
              foldl (\<lambda>abaqus_format (behavior_name, parameters).
                       foldl (\<lambda>abaqus_format parameter. abaqus_format @ [row_line parameter])
                         (abaqus_format @ [behavior_line behavior_name])
                         parameters)
                (abaqus_format @ [material_line material_name])
                behaviors)
       [] (materials self)"

text \<open>
  The default output path of a database read from a file:
  \<^verbatim>\<open>name + '_mod' + extension\<close> with \<^verbatim>\<open>name, extension = os.path.splitext(self.inp_file)\<close>.
\<close>

definition mod_name :: "string \<Rightarrow> string" where
  "mod_name file = (case splitext file of (name, extension) \<Rightarrow> name @ ''_mod'' @ extension)"

text \<open>
  The default output path of a database made by hand: \<^verbatim>\<open>materials.inp\<close>, or the first
  \<^verbatim>\<open>materials-i.inp\<close>, \<open>i = 1, 2, \<dots>\<close>, that is not among the files of the working directory.
  The search looks at one candidate more than there are files.
\<close>

fun next_free :: "nat \<Rightarrow> string list \<Rightarrow> nat \<Rightarrow> string \<Rightarrow> string" where
  "next_free 0 files i filename = filename"
| "next_free (Suc fuel) files i filename =
     (if filename \<in> set files
      then next_free fuel files (i + 1) (''materials-'' @ str_nat (i + 1) @ ''.inp'')
      else filename)"

definition fresh_name :: "string list \<Rightarrow> string" where
  "fresh_name files = next_free (Suc (length files)) files 0 ''materials.inp''"

text \<open>\<^verbatim>\<open>not output_file\<close>: no path was given, or the empty one.\<close>

definition output_given :: "string option \<Rightarrow> string option" where
  "output_given output_file =
     (case output_file of None \<Rightarrow> None | Some f \<Rightarrow> if f = [] then None else Some f)"

text \<open>
  The output path of \<^verbatim>\<open>write\<close> and \<^verbatim>\<open>remove\<close> for a database read from \<open>file\<close>:
  the path given, or \<^verbatim>\<open>name + '_mod' + extension\<close>.
\<close>

definition out_path :: "string option \<Rightarrow> string \<Rightarrow> string" where
  "out_path output_file file =
     (case output_given output_file of None \<Rightarrow> mod_name file | Some f \<Rightarrow> f)"

text \<open>
  The splice of \<^verbatim>\<open>write\<close> and \<^verbatim>\<open>remove\<close>: \<^verbatim>\<open>old[0:begin] + block + old[end+1:]\<close>.
  \<^verbatim>\<open>old[0:None]\<close> is the whole list, \<^verbatim>\<open>None + 1\<close> raises.
\<close>

definition splice :: "int option \<Rightarrow> int option \<Rightarrow> string list \<Rightarrow> string list \<Rightarrow> error + string list" where
  "splice begin_v end_v old block =
     (let before = (case begin_v of None \<Rightarrow> old | Some b \<Rightarrow> slice_to b old)
      in case end_v of
           None \<Rightarrow> Inl TypeError
         | Some e \<Rightarrow> Inr (before @ block @ slice_from (e + 1) old))"

text \<open>
  \<^verbatim>\<open>Material.write\<close>; \<open>listdir\<close> is the result of \<^verbatim>\<open>os.listdir()\<close>. The result is the
  exception raised or the file system after the call; the message printed at the end is
  left out.
\<close>

definition Material_write :: "string list \<Rightarrow> files \<Rightarrow> string option \<Rightarrow> Material \<Rightarrow> error + files" where
  "Material_write listdir fs output_file m =
     (if materials m = [] then Inl EmptyDatabase
      else if state_read m then
        (case fs (inp_file m) of
           None \<Rightarrow> Inl FileNotFound
         | Some text \<Rightarrow>
             (case splice (state_begin m) (state_end m) (readlines text)
                     (Material_format m) of
                Inl e \<Rightarrow> Inl e
              | Inr new \<Rightarrow>
                  (let out = out_path output_file (inp_file m)
                   in case validate_file_write fs out of
                        Some e \<Rightarrow> Inl e
                      | None \<Rightarrow> Inr (fs(out \<mapsto> concat new)))))
      else
        (let out = (case output_given output_file of
                      None \<Rightarrow> fresh_name listdir
                    | Some f \<Rightarrow> f)
         in case validate_file_write fs out of
              Some e \<Rightarrow> Inl e
            | None \<Rightarrow> Inr (fs(out \<mapsto> concat (Material_format m)))))"

text \<open>
  The static method \<^verbatim>\<open>Material.remove\<close>: it opens the file, reads it into a new instance
  made by \<^verbatim>\<open>Material()\<close>, and writes the lines outside the recorded range.
\<close>

definition Material_remove :: "files \<Rightarrow> string \<Rightarrow> string option \<Rightarrow> error + files" where
  "Material_remove fs file output_file =
     (case fs file of
        None \<Rightarrow> Inl FileNotFound
      | Some text \<Rightarrow>
          (case Material_read fs file (Material_init False) of
             (Some e, a) \<Rightarrow> Inl e
           | (None, a) \<Rightarrow>
               (case splice (state_begin a) (state_end a) (readlines text) [] of
                  Inl e \<Rightarrow> Inl e
                | Inr new \<Rightarrow>
                    (let out = out_path output_file file
                     in case validate_file_write fs out of
                          Some e \<Rightarrow> Inl e
                        | None \<Rightarrow> Inr (fs(out \<mapsto> concat new))))))"

section \<open>Geometry\<close>

text \<open>
  An instance of class \<^verbatim>\<open>Geometry\<close>. \<^verbatim>\<open>self.nodes\<close> starts as the empty dictionary and is
  a list of rows after \<^verbatim>\<open>read\<close>; both empty values are the empty list here.
\<close>

record Geometry =
  g_inp_file :: string
  g_state_begin :: "int option"
  g_state_end :: "int option"
  g_state_read :: bool
  nodes :: "row list"

definition Geometry_init :: Geometry where
  "Geometry_init =
     \<lparr>g_inp_file = [], g_state_begin = None, g_state_end = None, g_state_read = False,
      nodes = []\<rparr>"

record nlocals =
  n_in_node :: bool
  n_begin :: "int option"
  n_end :: "int option"
  n_nodes :: "row list"

definition nlocals_init :: nlocals where
  "nlocals_init = \<lparr>n_in_node = False, n_begin = None, n_end = None, n_nodes = []\<rparr>"

text \<open>One iteration of the loop of \<^verbatim>\<open>Geometry.read\<close>.\<close>

definition node_step :: "int \<Rightarrow> string \<Rightarrow> nlocals \<Rightarrow> nlocals outcome" where
  "node_step line_number line s =
     (let is_generalkeyword = generalkeyword line;
          is_node = node line;
          is_comment = comment line;
          is_parameter = (\<not> is_generalkeyword \<and> \<not> is_comment);
          is_node_param = (is_parameter \<and> n_in_node s)
      in if is_node then Continue (s\<lparr>n_in_node := True, n_begin := Some line_number\<rparr>)
         else if is_node_param then
           Continue (s\<lparr>n_nodes := n_nodes s @ [split_comma (butlast line)]\<rparr>)
         else if (is_generalkeyword \<or> is_comment) \<and> n_in_node s then
           Break (s\<lparr>n_end := Some (line_number - 1)\<rparr>)
         else Continue s)"

fun node_loop :: "int \<Rightarrow> string list \<Rightarrow> nlocals \<Rightarrow> nlocals outcome" where
  "node_loop i [] s = Continue s"
| "node_loop i (line # rest) s =
     (case node_step i line s of
        Continue s' \<Rightarrow> node_loop (i + 1) rest s'
      | Break s' \<Rightarrow> Break s'
      | Raise e \<Rightarrow> Raise e)"

definition node_store :: "string \<Rightarrow> nat \<Rightarrow> nlocals \<Rightarrow> Geometry \<Rightarrow> error option \<times> Geometry" where
  "node_store file n s g =
     (case (case n_end s of
              Some e \<Rightarrow> Some e
            | None \<Rightarrow> if n = 0 then None else Some (int n - 1)) of
        None \<Rightarrow> (Some (UnboundLocalError ''line_number''), g)
      | Some e \<Rightarrow>
          (let g1 = g\<lparr>g_inp_file := file, nodes := n_nodes s\<rparr>
           in case n_begin s of
                None \<Rightarrow> (Some (UnboundLocalError ''begin''), g1)
              | Some b \<Rightarrow>
                  (None, g1\<lparr>g_state_begin := Some b, g_state_end := Some e,
                            g_state_read := True\<rparr>)))"

definition Geometry_read :: "files \<Rightarrow> string \<Rightarrow> Geometry \<Rightarrow> error option \<times> Geometry" where
  "Geometry_read fs file g =
     (if g_state_read g then (Some AlreadyPopulated, g)
      else case validate_file_read fs file of
        Some e \<Rightarrow> (Some e, g)
      | None \<Rightarrow>
          (case fs file of
             None \<Rightarrow> (Some FileNotFound, g)
           | Some text \<Rightarrow>
               (let lines = readlines text
                in case node_loop 0 lines nlocals_init of
                     Raise e \<Rightarrow> (Some e, g)
                   | Break s \<Rightarrow> node_store file (length lines) s g
                   | Continue s \<Rightarrow> node_store file (length lines) s g)))"





section \<open>Notions used in the statements\<close>

text \<open>The lines the serializer writes for one behavior and for one material.\<close>

definition behavior_block :: "string \<times> row list \<Rightarrow> string list" where
  "behavior_block = (\<lambda>(behavior_name, parameters).
     behavior_line behavior_name # map row_line parameters)"

definition material_block :: "string \<times> behaviors \<Rightarrow> string list" where
  "material_block = (\<lambda>(material_name, bs).
     material_line material_name # concat (map behavior_block bs))"

text \<open>
  A line that reaches the last branch of the loop of \<^verbatim>\<open>Material.read\<close> inside the block:
  a keyword line or comment line that is neither a material line nor a behavior line.
\<close>

definition terminator :: "string \<Rightarrow> bool" where
  "terminator line =
     ((generalkeyword line \<or> comment line) \<and> material line = None \<and> behavior line = None)"

text \<open>The same for \<^verbatim>\<open>Geometry.read\<close>: a keyword line or comment line that is not a node line.\<close>

definition node_terminator :: "string \<Rightarrow> bool" where
  "node_terminator line = ((generalkeyword line \<or> comment line) \<and> \<not> node line)"

text \<open>The file of the block-range example, and a file system that holds it.\<close>

definition example_text :: string where
  "example_text =
     ''*Material, name=A\<newline>*Elastic\<newline>1,0.3\<newline>*Step\<newline>...\<newline>''"

definition example_files :: files where
  "example_files = (\<lambda>p. if p = ''f.inp'' then Some example_text else None)"

text \<open>What \<^verbatim>\<open>read\<close> leaves of a permissive instance on the example file.\<close>

definition permissive_result :: Material where
  "permissive_result =
     \<lparr>inp_file = ''f.inp'', state_begin = Some 0, state_end = Some 4, state_read = True,
      materials = [(''A'', [(''Elastic'', [[''1'', ''0.3''], [''...'']])])],
      is_greedy = False\<rparr>"

text \<open>A file without a material line.\<close>

definition no_material_files :: files where
  "no_material_files = (\<lambda>p. if p = ''g.inp'' then Some ''*Heading\<newline>1,2\<newline>'' else None)"

text \<open>What \<^verbatim>\<open>read\<close> leaves of a strict instance on the example file.\<close>

definition strict_result :: Material where
  "strict_result =
     \<lparr>inp_file = ''f.inp'', state_begin = Some 0, state_end = Some 2, state_read = True,
      materials = [(''A'', [(''Elastic'', [[''1'', ''0.3'']])])], is_greedy = True\<rparr>"






text \<open>A file with a node block followed by an element block, and what \<^verbatim>\<open>Geometry.read\<close> makes of it.\<close>

definition node_text :: string where
  "node_text = ''*Node\<newline>1,0.0,0.0\<newline>*Element, type=CPS4\<newline>1,1,2\<newline>''"

definition node_files :: files where
  "node_files = (\<lambda>p. if p = ''n.inp'' then Some node_text else None)"

definition node_result :: Geometry where
  "node_result =
     \<lparr>g_inp_file = ''n.inp'', g_state_begin = Some 0, g_state_end = Some 1,
      g_state_read = True, nodes = [[''1'', ''0.0'', ''0.0'']]\<rparr>"

text \<open>A file with two node lines, and what \<^verbatim>\<open>Geometry.read\<close> makes of it.\<close>

definition two_node_text :: string where
  "two_node_text = ''*Node\<newline>1,0.0,0.0\<newline>*Node\<newline>2,1.0,1.0\<newline>''"

definition two_node_files :: files where
  "two_node_files = (\<lambda>p. if p = ''n.inp'' then Some two_node_text else None)"

definition two_node_result :: Geometry where
  "two_node_result =
     \<lparr>g_inp_file = ''n.inp'', g_state_begin = Some 2, g_state_end = Some 3,
      g_state_read = True, nodes = [[''1'', ''0.0'', ''0.0''], [''2'', ''1.0'', ''1.0'']]\<rparr>"

text \<open>The locals of \<^verbatim>\<open>Material.read\<close> right after the first material line, at index \<open>k\<close> with name \<open>n\<close>.\<close>

definition entered :: "int \<Rightarrow> string \<Rightarrow> locals" where
  "entered k n =
     \<lparr>l_in_material = True, l_begin = Some k, l_end = None, l_material_name = Some n,
      l_behavior_name = None, l_materials = [(n, [])]\<rparr>"

text \<open>A file that ends with its material block, and what a strict \<^verbatim>\<open>read\<close> makes of it.\<close>

definition block_only_text :: string where
  "block_only_text = ''*Material, name=A\<newline>*Elastic\<newline>1,0.3\<newline>''"

definition block_only_files :: files where
  "block_only_files = (\<lambda>p. if p = ''b.inp'' then Some block_only_text else None)"

definition block_only_result :: Material where
  "block_only_result =
     \<lparr>inp_file = ''b.inp'', state_begin = Some 0, state_end = Some 2, state_read = True,
      materials = [(''A'', [(''Elastic'', [[''1'', ''0.3'']])])], is_greedy = True\<rparr>"

text \<open>
  A database read from a file and one made by hand, with the same hierarchy: two materials,
  the first with two behaviors, the second with none.
\<close>

definition example_database :: Material where
  "example_database =
     \<lparr>inp_file = ''f.inp'', state_begin = Some 0, state_end = Some 2, state_read = True,
      materials =
        [(''Steel'', [(''Elastic'', [[''210000'', ''0.3'']]),
                      (''Plastic'', [[''250'', ''0''], [''300'', ''0.1'']])]),
         (''Rubber'', [])],
      is_greedy = True\<rparr>"

definition handmade_database :: Material where
  "handmade_database =
     \<lparr>inp_file = [], state_begin = None, state_end = None, state_read = False,
      materials =
        [(''Steel'', [(''Elastic'', [[''210000'', ''0.3'']]),
                      (''Plastic'', [[''250'', ''0''], [''300'', ''0.1'']])]),
         (''Rubber'', [])],
      is_greedy = False\<rparr>"




text \<open>
  A file with a line before the material block and a line after it; what a strict and a
  permissive \<^verbatim>\<open>read\<close> make of it.
\<close>

definition heading_text :: string where
  "heading_text = ''*Heading\<newline>*Material, name=A\<newline>*Elastic\<newline>1,0.3\<newline>*Step\<newline>''"

definition heading_files :: files where
  "heading_files = (\<lambda>p. if p = ''h.inp'' then Some heading_text else None)"

definition heading_result :: Material where
  "heading_result =
     \<lparr>inp_file = ''h.inp'', state_begin = Some 1, state_end = Some 3, state_read = True,
      materials = [(''A'', [(''Elastic'', [[''1'', ''0.3'']])])], is_greedy = True\<rparr>"

definition heading_permissive :: Material where
  "heading_permissive =
     \<lparr>inp_file = ''h.inp'', state_begin = Some 1, state_end = Some 4, state_read = True,
      materials = [(''A'', [(''Elastic'', [[''1'', ''0.3'']])])], is_greedy = False\<rparr>"

text \<open>A line as the serializer writes it: it ends in a newline and holds no other.\<close>

definition terminated :: "string \<Rightarrow> bool" where
  "terminated l = (l \<noteq> [] \<and> last l = newline \<and> newline \<notin> set (butlast l))"

text \<open>
  Rows, behaviors and materials whose serialized lines \<^verbatim>\<open>Material.read\<close> takes back as they
  are: the row line is a data line that splits into the row, the behavior line and the
  material line match their patterns with the same name. A hierarchy of such materials,
  with no name twice, is what a read builds.
\<close>

definition good_row :: "row \<Rightarrow> bool" where
  "good_row r =
     (\<not> generalkeyword (row_line r) \<and> \<not> comment (row_line r) \<and>
      split_comma (butlast (row_line r)) = r \<and> terminated (row_line r))"

definition good_behavior :: "string \<times> row list \<Rightarrow> bool" where
  "good_behavior = (\<lambda>(b, rows).
     behavior (behavior_line b) = Some b \<and> material (behavior_line b) = None \<and>
     terminated (behavior_line b) \<and> (\<forall>r\<in>set rows. good_row r))"

definition good_material :: "string \<times> behaviors \<Rightarrow> bool" where
  "good_material = (\<lambda>(n, bs).
     material (material_line n) = Some n \<and> terminated (material_line n) \<and>
     distinct (map fst bs) \<and> (\<forall>x\<in>set bs. good_behavior x))"

definition wf_hierarchy :: "hierarchy \<Rightarrow> bool" where
  "wf_hierarchy h = (distinct (map fst h) \<and> (\<forall>x\<in>set h. good_material x))"

text \<open>
  A file whose material block is not spelled as the serializer spells it, what a strict
  \<^verbatim>\<open>read\<close> makes of it, and the text \<^verbatim>\<open>write\<close> makes of that.
\<close>

definition rt_text :: string where
  "rt_text =
     ''** header\<newline>*MATERIAL, NAME=A\<newline>*Elastic, type=ISOTROPIC\<newline>210000, 0.3\<newline>*Step\<newline>''"

definition rt_files :: files where
  "rt_files = (\<lambda>p. if p = ''r.inp'' then Some rt_text else None)"

definition rt_result :: Material where
  "rt_result =
     \<lparr>inp_file = ''r.inp'', state_begin = Some 1, state_end = Some 3, state_read = True,
      materials = [(''A'', [(''Elastic'', [[''210000'', '' 0.3'']])])], is_greedy = True\<rparr>"

definition rt_written :: string where
  "rt_written =
     ''** header\<newline>*Material, name=A\<newline>*Elastic\<newline>210000, 0.3\<newline>*Step\<newline>''"

text \<open>
  A file whose last line, a data line of the material block, has no newline, and what a
  strict \<^verbatim>\<open>read\<close> makes of it.
\<close>

definition unterminated_text :: string where
  "unterminated_text = ''*Material, name=A\<newline>*Elastic\<newline>1,0.3''"

definition unterminated_files :: files where
  "unterminated_files = (\<lambda>p. if p = ''u.inp'' then Some unterminated_text else None)"

definition unterminated_result :: Material where
  "unterminated_result =
     \<lparr>inp_file = ''u.inp'', state_begin = Some 0, state_end = Some 2, state_read = True,
      materials = [(''A'', [(''Elastic'', [[''1'', ''0.'']])])], is_greedy = True\<rparr>"

section \<open>The serializer\<close>

lemma foldl_rows:
  "foldl (\<lambda>out parameter. out @ [row_line parameter]) acc rows = acc @ map row_line rows"
  by (induction rows arbitrary: acc) auto

lemma foldl_behaviors:
  "foldl (\<lambda>out (behavior_name, parameters).
            foldl (\<lambda>out parameter. out @ [row_line parameter])
              (out @ [behavior_line behavior_name]) parameters) acc bs
     = acc @ concat (map behavior_block bs)"
  by (induction bs arbitrary: acc) (auto simp: foldl_rows behavior_block_def)

lemma foldl_materials:
  "foldl (\<lambda>out (material_name, behaviors).
              foldl (\<lambda>out (behavior_name, parameters).
                       foldl (\<lambda>out parameter. out @ [row_line parameter])
                         (out @ [behavior_line behavior_name]) parameters)
                (out @ [material_line material_name]) behaviors) acc ms
   = acc @ concat (map material_block ms)"
  by (induction ms arbitrary: acc) (auto simp: foldl_behaviors material_block_def)

lemma Material_format_blocks: "Material_format m = concat (map material_block (materials m))"
  by (simp add: Material_format_def foldl_materials)

lemma join_comma_concat:
  "join_comma parameter =
     (case parameter of [] \<Rightarrow> [] | f # fs \<Rightarrow> f @ concat (map (\<lambda>g. CHR '','' # g) fs))"
  by (induction parameter rule: join_comma.induct) simp_all

text \<open>
  Claim C3. The serializer writes, in the order of the hierarchy, for every material the
  line \<^verbatim>\<open>*Material, name=<name>\<close>, then for every behavior of that material the line
  \<^verbatim>\<open>*<behavior>\<close> followed by one line per row: the first field, then every further field
  with a comma before it; every line ends in a newline. The empty hierarchy gives no line.
  The lines are a function of the hierarchy alone, whatever the source path, the state and
  the mode of the instance: two instances with the same hierarchy give the same lines. The
  serializer takes no file system and returns none. A database of two materials, the first
  with two behaviors of one and two rows, gives the seven lines listed.
\<close>

theorem serializer_lines:
  "(materials m = [] \<longrightarrow> Material_format m = []) \<and>
   Material_format m =
     concat (map (\<lambda>(material_name, bs).
        (''*Material, name='' @ material_name @ ''\<newline>'') #
        concat (map (\<lambda>(behavior_name, rows).
           (''*'' @ behavior_name @ ''\<newline>'') #
           map (\<lambda>fields.
                  (case fields of [] \<Rightarrow> []
                   | f # fs \<Rightarrow> f @ concat (map (\<lambda>g. CHR '','' # g) fs)) @ ''\<newline>'')
             rows) bs)) (materials m)) \<and>
   (materials m' = materials m \<longrightarrow> Material_format m' = Material_format m) \<and>
   Material_format example_database =
     [''*Material, name=Steel\<newline>'', ''*Elastic\<newline>'', ''210000,0.3\<newline>'',
      ''*Plastic\<newline>'', ''250,0\<newline>'', ''300,0.1\<newline>'', ''*Material, name=Rubber\<newline>'']"
proof (intro conjI impI)
  assume "materials m = []"
  then show "Material_format m = []" by (simp add: Material_format_blocks)
next
  have "material_block = (\<lambda>(material_name, bs).
        (''*Material, name='' @ material_name @ ''\<newline>'') #
        concat (map (\<lambda>(behavior_name, rows).
           (''*'' @ behavior_name @ ''\<newline>'') #
           map (\<lambda>fields.
                  (case fields of [] \<Rightarrow> []
                   | f # fs \<Rightarrow> f @ concat (map (\<lambda>g. CHR '','' # g) fs)) @ ''\<newline>'')
             rows) bs))"
    by (simp add: material_block_def behavior_block_def material_line_def behavior_line_def
        row_line_def [abs_def] newline_def join_comma_concat [symmetric])
  then show "Material_format m =
     concat (map (\<lambda>(material_name, bs).
        (''*Material, name='' @ material_name @ ''\<newline>'') #
        concat (map (\<lambda>(behavior_name, rows).
           (''*'' @ behavior_name @ ''\<newline>'') #
           map (\<lambda>fields.
                  (case fields of [] \<Rightarrow> []
                   | f # fs \<Rightarrow> f @ concat (map (\<lambda>g. CHR '','' # g) fs)) @ ''\<newline>'')
             rows) bs)) (materials m))"
    by (simp add: Material_format_blocks)
next
  assume "materials m' = materials m"
  then show "Material_format m' = Material_format m" by (simp add: Material_format_blocks)
next
  show "Material_format example_database =
     [''*Material, name=Steel\<newline>'', ''*Elastic\<newline>'', ''210000,0.3\<newline>'',
      ''*Plastic\<newline>'', ''250,0\<newline>'', ''300,0.1\<newline>'', ''*Material, name=Rubber\<newline>'']"
    by code_simp
qed

theorem serializer_lines_witness:
  "materials (Material_init False) = [] \<and> Material_format (Material_init False) = [] \<and>
   materials handmade_database = materials example_database \<and>
   handmade_database \<noteq> example_database \<and>
   Material_format handmade_database = Material_format example_database \<and>
   Material_format handmade_database =
     [''*Material, name=Steel\<newline>'', ''*Elastic\<newline>'', ''210000,0.3\<newline>'',
      ''*Plastic\<newline>'', ''250,0\<newline>'', ''300,0.1\<newline>'', ''*Material, name=Rubber\<newline>'']"
proof -
  have h1: "materials (Material_init False) = []" by code_simp
  have h2: "materials handmade_database = materials example_database" by code_simp
  have h3: "handmade_database \<noteq> example_database" by code_simp
  note t1 = serializer_lines [of "Material_init False" "Material_init False"]
  note t2 = serializer_lines [of example_database handmade_database]
  from t1 h1 have r1: "Material_format (Material_init False) = []" by blast
  from t2 h2 have r2: "Material_format handmade_database = Material_format example_database"
    by blast
  from t2 have r3: "Material_format example_database =
     [''*Material, name=Steel\<newline>'', ''*Elastic\<newline>'', ''210000,0.3\<newline>'',
      ''*Plastic\<newline>'', ''250,0\<newline>'', ''300,0.1\<newline>'', ''*Material, name=Rubber\<newline>'']"
    by blast
  from h1 r1 h2 h3 r2 r3 show ?thesis by simp
qed

section \<open>The guard of Material.write\<close>

text \<open>
  Claim C7. \<^verbatim>\<open>write\<close> on an instance just made by the constructor, in either mode, raises
  the exception for an empty database; no file system results, whatever the output path
  and the working directory.
\<close>

theorem empty_write_guard:
  "Material_write listdir fs output_file (Material_init from_Abaqus) = Inl EmptyDatabase"
  by (simp add: Material_write_def Material_init_def)

section \<open>The loop of Material.read\<close>

lemma material_step_Continue_end:
  "material_step g i l s = Continue s' \<Longrightarrow> l_end s' = l_end s"
  by (auto simp: material_step_def Let_def split: option.splits if_splits)

lemma material_loop_Continue_end:
  "material_loop g i ls s = Continue s' \<Longrightarrow> l_end s' = l_end s"
proof (induction ls arbitrary: i s)
  case Nil
  then show ?case by simp
next
  case (Cons l ls)
  then show ?case
    by (auto split: outcome.splits dest: material_step_Continue_end)
qed

lemma material_step_permissive_no_Break:
  "material_step False i l s \<noteq> Break s'"
  by (auto simp: material_step_def Let_def split: option.splits if_splits)

lemma material_loop_permissive_no_Break:
  "material_loop False i ls s \<noteq> Break s'"
proof (induction ls arbitrary: i s)
  case Nil
  then show ?case by simp
next
  case (Cons l ls)
  then show ?case
    by (auto split: outcome.splits simp: material_step_permissive_no_Break)
qed

lemma Material_read_success:
  assumes "Material_read fs file m = (None, m')"
  shows "\<exists>body s. \<not> state_read m \<and> fs file = Some body \<and> body \<noteq> [] \<and>
           (material_loop (is_greedy m) 0 (readlines body) locals_init = Continue s \<or>
            material_loop (is_greedy m) 0 (readlines body) locals_init = Break s) \<and>
           material_store file (length (readlines body)) s m = (None, m')"
  using assms
  by (auto simp: Material_read_def validate_file_read_def Let_def
      split: if_splits option.splits outcome.splits)

lemma material_store_success:
  assumes "material_store file n s m = (None, m')"
  shows "\<exists>b e. l_begin s = Some b \<and>
           (l_end s = Some e \<or> l_end s = None \<and> 0 < n \<and> e = int n - 1) \<and>
           m' = m\<lparr>inp_file := file, materials := l_materials s, state_begin := Some b,
                  state_end := Some e, state_read := True\<rparr>"
  using assms
  by (auto simp: material_store_def Let_def split: if_splits option.splits)

section \<open>Permissive mode\<close>

text \<open>
  Claim C5 says that a permissive instance stops at a keyword line or comment line met
  inside the block, as a strict one does. On the example file a permissive instance is
  inside the block after three lines, line 3 is the keyword line \<^verbatim>\<open>*Step\<close>, and yet
  \<^verbatim>\<open>read\<close> goes on: it takes the last line for a row and records \<open>end = 4\<close>, not \<open>3 - 1\<close>.
\<close>

theorem permissive_stop_counterexample:
  "\<not> is_greedy (Material_init False) \<and>
   readlines example_text ! 3 = ''*Step\<newline>'' \<and>
   generalkeyword (readlines example_text ! 3) \<and>
   material_loop False 0 (take 3 (readlines example_text)) locals_init =
     Continue \<lparr>l_in_material = True, l_begin = Some 0, l_end = None,
       l_material_name = Some ''A'', l_behavior_name = Some ''Elastic'',
       l_materials = [(''A'', [(''Elastic'', [[''1'', ''0.3'']])])]\<rparr> \<and>
   Material_read example_files ''f.inp'' (Material_init False) = (None, permissive_result) \<and>
   state_end permissive_result \<noteq> Some (3 - 1)"
  by code_simp

text \<open>
  Claim C5 as amended. The last branch of the loop asks for \<^verbatim>\<open>is_greedy\<close>, so in permissive
  mode the termination rule is not applied: the loop is never left early, and every read
  that succeeds records as \<open>end\<close> the index of the last line of the file.
\<close>

theorem permissive_reads_to_end:
  assumes "\<not> is_greedy m" and "Material_read fs file m = (None, m')"
  shows "\<exists>body. fs file = Some body \<and>
           (\<forall>s. material_loop (is_greedy m) 0 (readlines body) locals_init \<noteq> Break s) \<and>
           state_end m' = Some (int (length (readlines body)) - 1)"
proof -
  from assms(2) obtain body s where t: "fs file = Some body"
    and l: "material_loop (is_greedy m) 0 (readlines body) locals_init = Continue s \<or>
            material_loop (is_greedy m) 0 (readlines body) locals_init = Break s"
    and st: "material_store file (length (readlines body)) s m = (None, m')"
    using Material_read_success by blast
  from assms(1) l have c: "material_loop False 0 (readlines body) locals_init = Continue s"
    by (simp add: material_loop_permissive_no_Break)
  have "l_end s = None"
    using material_loop_Continue_end [OF c] by (simp add: locals_init_def)
  with st have "state_end m' = Some (int (length (readlines body)) - 1)"
    by (auto dest!: material_store_success)
  with t assms(1) show ?thesis
    by (auto simp: material_loop_permissive_no_Break)
qed

theorem permissive_reads_to_end_witness:
  "\<not> is_greedy (Material_init False) \<and>
   Material_read example_files ''f.inp'' (Material_init False) = (None, permissive_result) \<and>
   example_files ''f.inp'' = Some example_text \<and>
   state_end permissive_result = Some (int (length (readlines example_text)) - 1)"
proof -
  have h1: "\<not> is_greedy (Material_init False)" by code_simp
  have h2: "Material_read example_files ''f.inp'' (Material_init False) = (None, permissive_result)"
    by code_simp
  have h3: "example_files ''f.inp'' = Some example_text" by code_simp
  from permissive_reads_to_end [OF h1 h2] h3 h1 h2 show ?thesis by auto
qed

section \<open>Reading twice, and reads that fail\<close>

lemma reread_guard:
  "state_read m \<Longrightarrow> Material_read fs file m = (Some AlreadyPopulated, m)"
  by (simp add: Material_read_def)

text \<open>
  Claim C6 at the input where the code departs from it. An instance holds the material
  \<^verbatim>\<open>A\<close>, added by \<^verbatim>\<open>add_material\<close>; \<^verbatim>\<open>read\<close> of a file without a material line stores the
  path and the empty hierarchy and then raises at the store of \<^verbatim>\<open>begin\<close>, which was never
  bound: the read fails and the hierarchy is lost.
\<close>

theorem failed_read_clears_hierarchy:
  "materials (add_material ''A'' (Material_init False)) = [(''A'', [])] \<and>
   Material_read no_material_files ''g.inp'' (add_material ''A'' (Material_init False)) =
     (Some (UnboundLocalError ''begin''),
      \<lparr>inp_file = ''g.inp'', state_begin = None, state_end = None, state_read = False,
       materials = [], is_greedy = False\<rparr>)"
  by code_simp

text \<open>
  Claim C9 at the input where the code departs from it. \<^verbatim>\<open>read\<close> of a file without a
  material line raises, as the claim says, but the instance is not as it was: the source
  path has been stored before the store of \<^verbatim>\<open>begin\<close> raises.
\<close>

theorem failed_read_changes_source_path:
  "Material_init True =
     \<lparr>inp_file = [], state_begin = None, state_end = None, state_read = False,
      materials = [], is_greedy = True\<rparr> \<and>
   Material_read no_material_files ''g.inp'' (Material_init True) =
     (Some (UnboundLocalError ''begin''),
      \<lparr>inp_file = ''g.inp'', state_begin = None, state_end = None, state_read = False,
       materials = [], is_greedy = True\<rparr>)"
  by code_simp

section \<open>Geometry.scale\<close>










section \<open>Lists and indices\<close>

lemma first_index:
  assumes "\<exists>x\<in>set xs. P x"
  shows "\<exists>k. k < length xs \<and> P (xs ! k) \<and> (\<forall>j<k. \<not> P (xs ! j)) \<and>
             xs = take k xs @ xs ! k # drop (Suc k) xs"
proof -
  from split_list_first_prop [OF assms] obtain ys x zs where
    d: "xs = ys @ x # zs" "P x" "\<forall>y\<in>set ys. \<not> P y" by blast
  let ?k = "length ys"
  have "?k < length xs" using d(1) by simp
  moreover have "xs ! ?k = x" using d(1) by simp
  moreover have "\<forall>j<?k. \<not> P (xs ! j)" using d(1,3) by (simp add: nth_append)
  moreover have "xs = take ?k xs @ xs ! ?k # drop (Suc ?k) xs"
    using d(1) by simp
  ultimately show ?thesis using d(2) by blast
qed


lemma take_between:
  assumes "k < t" and "t < length xs"
  shows "take (Suc t) xs = take k xs @ xs ! k # take (t - Suc k) (drop (Suc k) xs) @ [xs ! t]"
proof -
  have "take (Suc t) xs = take t xs @ [xs ! t]"
    using assms(2) by (simp add: take_Suc_conv_app_nth)
  moreover have "take t xs = take k xs @ take (t - k) (drop k xs)"
    using assms(1) take_add [of k "t - k" xs] by simp
  moreover have "drop k xs = xs ! k # drop (Suc k) xs"
    using assms by (simp add: Cons_nth_drop_Suc)
  moreover have "t - k = Suc (t - Suc k)"
    using assms(1) by simp
  ultimately show ?thesis by simp
qed

lemma set_take_drop_between:
  assumes "x \<in> set (take n (drop (Suc k) xs))"
  shows "\<exists>j. k < j \<and> j < Suc k + n \<and> j < length xs \<and> x = xs ! j"
proof -
  from assms obtain i where i: "i < length (take n (drop (Suc k) xs))"
    "take n (drop (Suc k) xs) ! i = x"
    by (auto simp: in_set_conv_nth)
  then have "i < n" "Suc k + i < length xs" by auto
  with i have "x = xs ! (Suc k + i)" by simp
  with \<open>i < n\<close> \<open>Suc k + i < length xs\<close> show ?thesis
    by (intro exI [of _ "Suc k + i"]) simp
qed

section \<open>The loop of Geometry.read\<close>

lemma node_loop_append:
  "node_loop i (xs @ ys) s =
     (case node_loop i xs s of
        Continue s' \<Rightarrow> node_loop (i + int (length xs)) ys s'
      | Break s' \<Rightarrow> Break s'
      | Raise e \<Rightarrow> Raise e)"
proof (induction xs arbitrary: i s)
  case Nil
  then show ?case by simp
next
  case (Cons x xs)
  show ?case
  proof (cases "node_step i x s")
    case (Continue s1)
    with Cons [of "i + 1" s1] show ?thesis by (simp add: algebra_simps split: outcome.splits)
  qed simp_all
qed

lemma node_loop_outside:
  "\<not> n_in_node s \<Longrightarrow> \<forall>l\<in>set ls. \<not> node l \<Longrightarrow> node_loop i ls s = Continue s"
  by (induction ls arbitrary: i) (simp_all add: node_step_def)

lemma node_step_enter:
  "node l \<Longrightarrow> node_step i l s = Continue (s\<lparr>n_in_node := True, n_begin := Some i\<rparr>)"
  by (simp add: node_step_def)

lemma node_step_inside:
  "n_in_node s \<Longrightarrow> \<not> node_terminator l \<Longrightarrow>
   \<exists>s'. node_step i l s = Continue s' \<and> n_in_node s' \<and> n_end s' = n_end s"
  by (auto simp: node_step_def node_terminator_def)

lemma node_loop_inside:
  "n_in_node s \<Longrightarrow> \<forall>l\<in>set ls. \<not> node_terminator l \<Longrightarrow>
   \<exists>s'. node_loop i ls s = Continue s' \<and> n_in_node s' \<and> n_end s' = n_end s"
proof (induction ls arbitrary: i s)
  case Nil
  then show ?case by simp
next
  case (Cons l ls)
  from Cons.prems obtain s1 where
    s1: "node_step i l s = Continue s1" "n_in_node s1" "n_end s1 = n_end s"
    using node_step_inside [of s l i] by auto
  from Cons.IH [of s1 "i + 1"] Cons.prems s1 show ?case by auto
qed

lemma node_step_stop:
  "n_in_node s \<Longrightarrow> node_terminator l \<Longrightarrow>
   node_step i l s = Break (s\<lparr>n_end := Some (i - 1)\<rparr>)"
  by (auto simp: node_step_def node_terminator_def)

lemma node_loop_Break_append:
  "node_loop i xs s = Break s' \<Longrightarrow> node_loop i (xs @ ys) s = Break s'"
  by (simp add: node_loop_append)

text \<open>The loop on a file whose first node line is at k.\<close>

lemma node_loop_enter:
  assumes "\<forall>l\<in>set pre. \<not> node l" and "node l"
  shows "node_loop 0 (pre @ l # post) nlocals_init =
           node_loop (int (length pre) + 1) post
             (nlocals_init\<lparr>n_in_node := True, n_begin := Some (int (length pre))\<rparr>)"
  using assms
  by (simp add: node_loop_append node_loop_outside nlocals_init_def node_step_enter)

lemma node_loop_stop:
  assumes "n_in_node s" and "\<forall>l\<in>set mid. \<not> node_terminator l" and "node_terminator t"
  shows "\<exists>s'. node_loop i (mid @ t # post) s = Break s' \<and>
               n_end s' = Some (i + int (length mid) - 1)"
proof -
  from node_loop_inside [OF assms(1,2), of i] obtain s1 where
    s1: "node_loop i mid s = Continue s1" "n_in_node s1"
    by auto
  then show ?thesis
    using assms(3) by (simp add: node_loop_append node_step_stop)
qed

lemma Geometry_read_success:
  assumes "Geometry_read fs file g = (None, g')"
  shows "\<exists>body s. \<not> g_state_read g \<and> fs file = Some body \<and> body \<noteq> [] \<and>
           (node_loop 0 (readlines body) nlocals_init = Continue s \<or>
            node_loop 0 (readlines body) nlocals_init = Break s) \<and>
           node_store file (length (readlines body)) s g = (None, g')"
  using assms
  by (auto simp: Geometry_read_def validate_file_read_def Let_def
      split: if_splits option.splits outcome.splits)

lemma node_store_success:
  assumes "node_store file n s g = (None, g')"
  shows "\<exists>b e. n_begin s = Some b \<and>
           (n_end s = Some e \<or> n_end s = None \<and> 0 < n \<and> e = int n - 1) \<and>
           g' = g\<lparr>g_inp_file := file, nodes := n_nodes s, g_state_begin := Some b,
                  g_state_end := Some e, g_state_read := True\<rparr>"
  using assms
  by (auto simp: node_store_def Let_def split: if_splits option.splits)

lemma node_loop_stop_prefix:
  assumes "n_in_node s" and "\<forall>l\<in>set mid. \<not> node_terminator l" and "node_terminator t"
  shows "\<exists>s'. node_loop i (mid @ [t]) s = Break s' \<and>
               n_end s' = Some (i + int (length mid) - 1)"
  using node_loop_stop [OF assms, of i "[]"] .

text \<open>
  Claim C10 says that \<^verbatim>\<open>Geometry.read\<close> stops at the first keyword line or comment line
  it meets after entering the node block. On a file with two node lines the second one,
  line 2, is a keyword line met inside the block, and yet the loop goes on: the branch for
  node lines comes first, so the line starts the block again, and \<open>end\<close> is 3, not \<open>2 - 1\<close>.
\<close>

theorem node_stop_counterexample:
  "readlines two_node_text ! 2 = ''*Node\<newline>'' \<and>
   generalkeyword (readlines two_node_text ! 2) \<and>
   node_loop 0 (take 2 (readlines two_node_text)) nlocals_init =
     Continue \<lparr>n_in_node = True, n_begin = Some 0, n_end = None,
                n_nodes = [[''1'', ''0.0'', ''0.0'']]\<rparr> \<and>
   Geometry_read two_node_files ''n.inp'' Geometry_init = (None, two_node_result) \<and>
   g_state_end two_node_result \<noteq> Some (2 - 1)"
  by code_simp

text \<open>
  Claim C10 as amended. \<^verbatim>\<open>Geometry.read\<close> has no mode: whatever the instance, when the read
  succeeds the block was entered at the first node line \<open>k\<close>, and the loop stops at the
  first later line \<open>t\<close> that is a keyword line or comment line and not itself a node line;
  then \<open>end = t - 1\<close> and no line after \<open>t\<close> is read (any file with the same first \<open>t + 1\<close>
  lines gives the same outcome). With no such line, \<open>end\<close> is the index of the last line.
\<close>

theorem node_block_end:
  assumes rd: "Geometry_read fs path g = (None, g')"
  shows "\<exists>body k. fs path = Some body \<and> k < length (readlines body) \<and>
     node (readlines body ! k) \<and> (\<forall>j<k. \<not> node (readlines body ! j)) \<and>
     (\<forall>t. k < t \<and> t < length (readlines body) \<and> node_terminator (readlines body ! t) \<and>
           (\<forall>j. k < j \<and> j < t \<longrightarrow> \<not> node_terminator (readlines body ! j)) \<longrightarrow>
          g_state_end g' = Some (int t - 1) \<and>
          (\<forall>ls'. take (Suc t) ls' = take (Suc t) (readlines body) \<longrightarrow>
             node_loop 0 ls' nlocals_init = node_loop 0 (readlines body) nlocals_init)) \<and>
     ((\<forall>j. k < j \<and> j < length (readlines body) \<longrightarrow> \<not> node_terminator (readlines body ! j)) \<longrightarrow>
          g_state_end g' = Some (int (length (readlines body)) - 1))"
proof -
  from Geometry_read_success [OF rd] obtain body s where
    body: "fs path = Some body" and
    loop: "node_loop 0 (readlines body) nlocals_init = Continue s \<or>
           node_loop 0 (readlines body) nlocals_init = Break s" and
    store: "node_store path (length (readlines body)) s g = (None, g')"
    by blast
  let ?ls = "readlines body"
  from node_store_success [OF store] obtain b e where
    b: "n_begin s = Some b" and
    e: "n_end s = Some e \<or> n_end s = None \<and> e = int (length ?ls) - 1" and
    g': "g_state_end g' = Some e"
    by auto
  have ex: "\<exists>l\<in>set ?ls. node l"
  proof (rule ccontr)
    assume "\<not> (\<exists>l\<in>set ?ls. node l)"
    then have "node_loop 0 ?ls nlocals_init = Continue nlocals_init"
      by (intro node_loop_outside) (simp_all add: nlocals_init_def)
    with loop have "s = nlocals_init" by simp
    with b show False by (simp add: nlocals_init_def)
  qed
  from first_index [OF ex] obtain k where
    k: "k < length ?ls" "node (?ls ! k)" "\<forall>j<k. \<not> node (?ls ! j)" and
    dec: "?ls = take k ?ls @ ?ls ! k # drop (Suc k) ?ls"
    by blast
  define s0 where "s0 = nlocals_init\<lparr>n_in_node := True, n_begin := Some (int k)\<rparr>"
  have pre: "\<forall>l\<in>set (take k ?ls). \<not> node l"
    using k(1,3) by (auto simp: in_set_conv_nth)
  have s0: "n_in_node s0" "n_end s0 = None"
    by (simp_all add: s0_def nlocals_init_def)
  have enter: "node_loop 0 (take k ?ls @ ?ls ! k # post) nlocals_init =
                 node_loop (int k + 1) post s0" for post
    using node_loop_enter [OF pre k(2), of post] k(1) by (simp add: s0_def)
  have stop: "\<forall>t. k < t \<and> t < length ?ls \<and> node_terminator (?ls ! t) \<and>
           (\<forall>j. k < j \<and> j < t \<longrightarrow> \<not> node_terminator (?ls ! j)) \<longrightarrow>
          g_state_end g' = Some (int t - 1) \<and>
          (\<forall>ls'. take (Suc t) ls' = take (Suc t) ?ls \<longrightarrow>
             node_loop 0 ls' nlocals_init = node_loop 0 ?ls nlocals_init)"
  proof (intro allI impI)
    fix t
    assume a: "k < t \<and> t < length ?ls \<and> node_terminator (?ls ! t) \<and>
           (\<forall>j. k < j \<and> j < t \<longrightarrow> \<not> node_terminator (?ls ! j))"
    then have t: "k < t" "t < length ?ls" "node_terminator (?ls ! t)"
      "\<forall>j. k < j \<and> j < t \<longrightarrow> \<not> node_terminator (?ls ! j)"
      by blast+
    define mid where "mid = take (t - Suc k) (drop (Suc k) ?ls)"
    have pfx: "take (Suc t) ?ls = take k ?ls @ ?ls ! k # mid @ [?ls ! t]"
      unfolding mid_def by (rule take_between [OF t(1,2)])
    have midlen: "length mid = t - Suc k"
      using t(1,2) by (simp add: mid_def)
    have "\<forall>l\<in>set mid. \<not> node_terminator l"
    proof
      fix l assume "l \<in> set mid"
      then have "l \<in> set (take (t - Suc k) (drop (Suc k) ?ls))" by (simp add: mid_def)
      from set_take_drop_between [OF this]
      obtain j where "k < j" "j < Suc k + (t - Suc k)" "l = ?ls ! j"
        by blast
      with t(1,4) show "\<not> node_terminator l" by simp
    qed
    from node_loop_stop_prefix [OF s0(1) this t(3), of "int k + 1"] obtain s' where
      s': "node_loop (int k + 1) (mid @ [?ls ! t]) s0 = Break s'"
      "n_end s' = Some (int k + 1 + int (length mid) - 1)"
      by blast
    have br: "node_loop 0 (take (Suc t) ?ls) nlocals_init = Break s'"
      unfolding pfx enter by (rule s'(1))
    have all: "node_loop 0 xs nlocals_init = Break s'" if "take (Suc t) xs = take (Suc t) ?ls" for xs
    proof -
      have "node_loop 0 (take (Suc t) ?ls @ drop (Suc t) xs) nlocals_init = Break s'"
        by (rule node_loop_Break_append [OF br])
      moreover have "take (Suc t) ?ls @ drop (Suc t) xs = xs"
        using that append_take_drop_id [of "Suc t" xs] by metis
      ultimately show ?thesis by simp
    qed
    have brk: "node_loop 0 ?ls nlocals_init = Break s'"
      by (rule all) (rule refl)
    with loop have "s = s'" by simp
    with s'(2) have "n_end s = Some (int k + 1 + int (length mid) - 1)" by simp
    moreover have "int k + 1 + int (length mid) - 1 = int t - 1"
      using midlen t(1) by simp
    ultimately have "e = int t - 1" using e by simp
    with g' have g1: "g_state_end g' = Some (int t - 1)" by simp
    have g2: "\<forall>ls'. take (Suc t) ls' = take (Suc t) ?ls \<longrightarrow>
             node_loop 0 ls' nlocals_init = node_loop 0 ?ls nlocals_init"
    proof (intro allI impI)
      fix ls' assume "take (Suc t) ls' = take (Suc t) ?ls"
      then have "node_loop 0 ls' nlocals_init = Break s'" by (rule all)
      with brk show "node_loop 0 ls' nlocals_init = node_loop 0 ?ls nlocals_init" by simp
    qed
    from g1 g2 show "g_state_end g' = Some (int t - 1) \<and>
          (\<forall>ls'. take (Suc t) ls' = take (Suc t) ?ls \<longrightarrow>
             node_loop 0 ls' nlocals_init = node_loop 0 ?ls nlocals_init)"
      by (rule conjI)
  qed
  have eof: "(\<forall>j. k < j \<and> j < length ?ls \<longrightarrow> \<not> node_terminator (?ls ! j)) \<longrightarrow>
          g_state_end g' = Some (int (length ?ls) - 1)"
  proof
    assume none: "\<forall>j. k < j \<and> j < length ?ls \<longrightarrow> \<not> node_terminator (?ls ! j)"
    have "\<forall>l\<in>set (drop (Suc k) ?ls). \<not> node_terminator l"
    proof
      fix l assume "l \<in> set (drop (Suc k) ?ls)"
      then have "l \<in> set (take (length ?ls) (drop (Suc k) ?ls))" by simp
      from set_take_drop_between [OF this]
      obtain j where "k < j" "j < length ?ls" "l = ?ls ! j"
        by blast
      with none show "\<not> node_terminator l" by simp
    qed
    from node_loop_inside [OF s0(1) this, of "int k + 1"] obtain s' where
      c: "node_loop (int k + 1) (drop (Suc k) ?ls) s0 = Continue s'" and n: "n_end s' = None"
      using s0(2) by auto
    have "node_loop 0 (take k ?ls @ ?ls ! k # drop (Suc k) ?ls) nlocals_init = Continue s'"
      unfolding enter by (rule c)
    then have "node_loop 0 ?ls nlocals_init = Continue s'"
      by (simp only: dec [symmetric])
    with loop have "s = s'" by simp
    with n e g' show "g_state_end g' = Some (int (length ?ls) - 1)" by simp
  qed
  have main: "fs path = Some body \<and> k < length ?ls \<and>
     node (?ls ! k) \<and> (\<forall>j<k. \<not> node (?ls ! j)) \<and>
     (\<forall>t. k < t \<and> t < length ?ls \<and> node_terminator (?ls ! t) \<and>
           (\<forall>j. k < j \<and> j < t \<longrightarrow> \<not> node_terminator (?ls ! j)) \<longrightarrow>
          g_state_end g' = Some (int t - 1) \<and>
          (\<forall>ls'. take (Suc t) ls' = take (Suc t) ?ls \<longrightarrow>
             node_loop 0 ls' nlocals_init = node_loop 0 ?ls nlocals_init)) \<and>
     ((\<forall>j. k < j \<and> j < length ?ls \<longrightarrow> \<not> node_terminator (?ls ! j)) \<longrightarrow>
          g_state_end g' = Some (int (length ?ls) - 1))"
    by (intro conjI body k(1) k(2) k(3) stop eof)
  show ?thesis
    by (rule exI [of _ body], rule exI [of _ k]) (rule main)
qed


theorem node_block_end_witness:
  "Geometry_read node_files ''n.inp'' Geometry_init = (None, node_result) \<and>
   node_terminator (readlines node_text ! 2) \<and>
   g_state_end node_result = Some (int 2 - 1) \<and>
   Geometry_read two_node_files ''n.inp'' Geometry_init = (None, two_node_result) \<and>
   g_state_end two_node_result = Some (int (length (readlines two_node_text)) - 1)"
proof -
  have h: "Geometry_read node_files ''n.inp'' Geometry_init = (None, node_result)"
    by code_simp
  from node_block_end [OF h] obtain body k where
    p: "node_files ''n.inp'' = Some body" "\<forall>j<k. \<not> node (readlines body ! j)" and
    st: "\<forall>t. k < t \<and> t < length (readlines body) \<and> node_terminator (readlines body ! t) \<and>
           (\<forall>j. k < j \<and> j < t \<longrightarrow> \<not> node_terminator (readlines body ! j)) \<longrightarrow>
          g_state_end node_result = Some (int t - 1) \<and>
          (\<forall>ls'. take (Suc t) ls' = take (Suc t) (readlines body) \<longrightarrow>
             node_loop 0 ls' nlocals_init = node_loop 0 (readlines body) nlocals_init)"
    by (elim exE conjE)
  have "node_files ''n.inp'' = Some node_text" by code_simp
  with p(1) have body: "body = node_text" by simp
  have n0: "node (readlines node_text ! 0)" by code_simp
  have k0: "k = 0"
  proof (rule ccontr)
    assume "k \<noteq> 0"
    then have "0 < k" by simp
    with p(2) have "\<not> node (readlines body ! 0)" by blast
    with n0 body show False by simp
  qed
  have c1: "2 < length (readlines node_text)" by code_simp
  have c2: "node_terminator (readlines node_text ! 2)" by code_simp
  have c3: "\<not> node_terminator (readlines node_text ! 1)" by code_simp
  have c4: "\<forall>j. 0 < j \<and> j < 2 \<longrightarrow> \<not> node_terminator (readlines node_text ! j)"
  proof (intro allI impI)
    fix j :: nat assume "0 < j \<and> j < 2"
    then have "j = 1" by simp
    with c3 show "\<not> node_terminator (readlines node_text ! j)" by simp
  qed
  from st [unfolded body k0] have
    "0 < (2::nat) \<and> 2 < length (readlines node_text) \<and> node_terminator (readlines node_text ! 2) \<and>
           (\<forall>j. 0 < j \<and> j < 2 \<longrightarrow> \<not> node_terminator (readlines node_text ! j)) \<longrightarrow>
          g_state_end node_result = Some (int 2 - 1) \<and>
          (\<forall>ls'. take (Suc 2) ls' = take (Suc 2) (readlines node_text) \<longrightarrow>
             node_loop 0 ls' nlocals_init = node_loop 0 (readlines node_text) nlocals_init)"
    by (rule spec)
  with c1 c2 c4 have r1: "g_state_end node_result = Some (int 2 - 1)" by simp
  have h2: "Geometry_read two_node_files ''n.inp'' Geometry_init = (None, two_node_result)"
    by code_simp
  from node_block_end [OF h2] obtain body2 k2 where
    q: "two_node_files ''n.inp'' = Some body2" and
    eo: "(\<forall>j. k2 < j \<and> j < length (readlines body2) \<longrightarrow> \<not> node_terminator (readlines body2 ! j)) \<longrightarrow>
          g_state_end two_node_result = Some (int (length (readlines body2)) - 1)"
    by (elim exE conjE)
  have "two_node_files ''n.inp'' = Some two_node_text" by code_simp
  with q have body2: "body2 = two_node_text" by simp
  have d: "\<forall>l\<in>set (readlines two_node_text). \<not> node_terminator l" by code_simp
  have "\<forall>j. k2 < j \<and> j < length (readlines two_node_text) \<longrightarrow>
           \<not> node_terminator (readlines two_node_text ! j)"
    using d by simp
  with eo [unfolded body2]
  have r2: "g_state_end two_node_result = Some (int (length (readlines two_node_text)) - 1)"
    by (rule mp)
  from h c2 r1 h2 r2 show ?thesis by (intro conjI)
qed

section \<open>The block range in strict mode\<close>

lemma material_loop_append:
  "material_loop g i (xs @ ys) s =
     (case material_loop g i xs s of
        Continue s' \<Rightarrow> material_loop g (i + int (length xs)) ys s'
      | Break s' \<Rightarrow> Break s'
      | Raise e \<Rightarrow> Raise e)"
proof (induction xs arbitrary: i s)
  case Nil
  then show ?case by simp
next
  case (Cons x xs)
  show ?case
  proof (cases "material_step g i x s")
    case (Continue s1)
    with Cons [of "i + 1" s1] show ?thesis
      by (simp add: algebra_simps split: outcome.splits)
  qed simp_all
qed

lemma material_loop_Break_append:
  "material_loop g i xs s = Break s' \<Longrightarrow> material_loop g i (xs @ ys) s = Break s'"
  by (simp add: material_loop_append)

text \<open>Before the block: a line that is not a material line raises or changes nothing.\<close>

lemma material_step_outside:
  "\<not> l_in_material s \<Longrightarrow> l_material_name s = None \<Longrightarrow> material l = None \<Longrightarrow>
   material_step g i l s = Continue s \<or> (\<exists>e. material_step g i l s = Raise e)"
  by (auto simp: material_step_def Let_def split: option.splits)

lemma material_loop_outside:
  "\<not> l_in_material s \<Longrightarrow> l_material_name s = None \<Longrightarrow>
   \<forall>l\<in>set ls. material l = None \<Longrightarrow>
   material_loop g i ls s = Continue s \<or> (\<exists>e. material_loop g i ls s = Raise e)"
proof (induction ls arbitrary: i)
  case Nil
  then show ?case by simp
next
  case (Cons l ls)
  from Cons.prems have "material_step g i l s = Continue s \<or> (\<exists>e. material_step g i l s = Raise e)"
    by (intro material_step_outside) simp_all
  then show ?case
  proof
    assume c: "material_step g i l s = Continue s"
    from Cons.IH [of "i + 1"] Cons.prems
    have "material_loop g (i + 1) ls s = Continue s \<or> (\<exists>e. material_loop g (i + 1) ls s = Raise e)"
      by simp
    with c show ?thesis by simp
  next
    assume "\<exists>e. material_step g i l s = Raise e"
    then show ?thesis by auto
  qed
qed

lemma material_step_enter:
  "\<not> l_in_material s \<Longrightarrow> material l = Some n \<Longrightarrow>
   material_step g i l s =
     Continue (s\<lparr>l_in_material := True, l_begin := Some i, l_material_name := Some n,
                 l_materials := dict_set n [] (l_materials s)\<rparr>)"
  by (simp add: material_step_def)

text \<open>Inside the block in strict mode.\<close>

lemma material_step_inside:
  "l_in_material s \<Longrightarrow> \<not> terminator l \<Longrightarrow>
   (\<exists>s'. material_step True i l s = Continue s' \<and> l_in_material s' \<and>
         l_begin s' = l_begin s \<and> l_end s' = l_end s) \<or>
   (\<exists>e. material_step True i l s = Raise e)"
  by (auto simp: material_step_def terminator_def Let_def split: option.splits)

lemma material_step_stop:
  "l_in_material s \<Longrightarrow> terminator l \<Longrightarrow>
   material_step True i l s = Break (s\<lparr>l_end := Some (i - 1)\<rparr>)"
  by (auto simp: material_step_def terminator_def Let_def split: option.splits)

lemma material_loop_inside:
  "l_in_material s \<Longrightarrow> \<forall>l\<in>set ls. \<not> terminator l \<Longrightarrow>
   (\<exists>s'. material_loop True i ls s = Continue s' \<and> l_in_material s' \<and>
         l_begin s' = l_begin s \<and> l_end s' = l_end s) \<or>
   (\<exists>e. material_loop True i ls s = Raise e)"
proof (induction ls arbitrary: i s)
  case Nil
  then show ?case by simp
next
  case (Cons l ls)
  from Cons.prems have
    "(\<exists>s'. material_step True i l s = Continue s' \<and> l_in_material s' \<and>
         l_begin s' = l_begin s \<and> l_end s' = l_end s) \<or>
     (\<exists>e. material_step True i l s = Raise e)"
    by (intro material_step_inside) simp_all
  then show ?case
  proof
    assume "\<exists>s'. material_step True i l s = Continue s' \<and> l_in_material s' \<and>
         l_begin s' = l_begin s \<and> l_end s' = l_end s"
    then obtain s1 where s1: "material_step True i l s = Continue s1" "l_in_material s1"
      "l_begin s1 = l_begin s" "l_end s1 = l_end s"
      by blast
    from Cons.IH [OF s1(2), of "i + 1"] Cons.prems(2)
    have "(\<exists>s'. material_loop True (i + 1) ls s1 = Continue s' \<and> l_in_material s' \<and>
         l_begin s' = l_begin s1 \<and> l_end s' = l_end s1) \<or>
       (\<exists>e. material_loop True (i + 1) ls s1 = Raise e)"
      by simp
    with s1 show ?thesis by auto
  next
    assume "\<exists>e. material_step True i l s = Raise e"
    then show ?thesis by auto
  qed
qed


lemma material_loop_prefix_no_Raise:
  assumes "material_loop g i (xs @ ys) s = Continue s' \<or> material_loop g i (xs @ ys) s = Break s'"
  shows "material_loop g i xs s \<noteq> Raise e"
proof
  assume "material_loop g i xs s = Raise e"
  then have "material_loop g i (xs @ ys) s = Raise e"
    by (simp add: material_loop_append)
  with assms show False by simp
qed

lemma material_step_begin:
  "l_in_material s \<Longrightarrow>
   material_step g i l s = Continue s' \<or> material_step g i l s = Break s' \<Longrightarrow>
   l_in_material s' \<and> l_begin s' = l_begin s"
  by (auto simp: material_step_def Let_def split: option.splits if_splits)

lemma material_loop_begin:
  "l_in_material s \<Longrightarrow>
   material_loop g i ls s = Continue s' \<or> material_loop g i ls s = Break s' \<Longrightarrow>
   l_begin s' = l_begin s"
proof (induction ls arbitrary: i s)
  case Nil
  then show ?case by simp
next
  case (Cons l ls)
  show ?case
  proof (cases "material_step g i l s")
    case (Continue s1)
    with Cons.prems(1) have s1: "l_in_material s1" "l_begin s1 = l_begin s"
      using material_step_begin [of s g i l s1] by simp_all
    from Cons.prems(2) Continue
    have "material_loop g (i + 1) ls s1 = Continue s' \<or> material_loop g (i + 1) ls s1 = Break s'"
      by simp
    from Cons.IH [OF s1(1) this] s1(2) show ?thesis by simp
  next
    case (Break s1)
    with Cons.prems show ?thesis
      using material_step_begin [of s g i l s'] by simp
  next
    case (Raise e)
    with Cons.prems show ?thesis by simp
  qed
qed

lemma material_loop_enter:
  assumes pre: "\<forall>l\<in>set pre. material l = None" and mline: "material mline = Some n"
    and ok: "material_loop g 0 (pre @ mline # post) locals_init = Continue s \<or>
             material_loop g 0 (pre @ mline # post) locals_init = Break s"
  shows "material_loop g 0 (pre @ mline # post') locals_init =
           material_loop g (int (length pre) + 1) post' (entered (int (length pre)) n)"
proof -
  have "material_loop g 0 pre locals_init = Continue locals_init \<or>
        (\<exists>e. material_loop g 0 pre locals_init = Raise e)"
    using pre by (intro material_loop_outside) (simp_all add: locals_init_def)
  moreover have "material_loop g 0 pre locals_init \<noteq> Raise e" for e
    using ok by (rule material_loop_prefix_no_Raise)
  ultimately have p: "material_loop g 0 pre locals_init = Continue locals_init"
    by blast
  have "material_step g (int (length pre)) mline locals_init = Continue (entered (int (length pre)) n)"
    using material_step_enter [of locals_init mline n g "int (length pre)"] mline
    by (simp add: locals_init_def entered_def)
  with p show ?thesis
    by (simp add: material_loop_append)
qed

lemma material_loop_stop:
  assumes s: "l_in_material s" and mid: "\<forall>l\<in>set mid. \<not> terminator l" and t: "terminator tline"
    and ok: "material_loop True i (mid @ tline # rest) s = Continue r \<or>
             material_loop True i (mid @ tline # rest) s = Break r"
  shows "\<exists>s'. material_loop True i (mid @ [tline]) s = Break s' \<and>
               l_end s' = Some (i + int (length mid) - 1)"
proof -
  have "(\<exists>s'. material_loop True i mid s = Continue s' \<and> l_in_material s' \<and>
         l_begin s' = l_begin s \<and> l_end s' = l_end s) \<or>
        (\<exists>e. material_loop True i mid s = Raise e)"
    using s mid by (rule material_loop_inside)
  moreover have "material_loop True i mid s \<noteq> Raise e" for e
    using ok by (rule material_loop_prefix_no_Raise)
  ultimately obtain s1 where s1: "material_loop True i mid s = Continue s1" "l_in_material s1"
    by blast
  from material_step_stop [OF s1(2) t, of "i + int (length mid)"] s1(1)
  show ?thesis
    by (simp add: material_loop_append)
qed

lemma material_loop_eof:
  assumes s: "l_in_material s" and post: "\<forall>l\<in>set post. \<not> terminator l"
    and ok: "material_loop True i post s = Continue r \<or> material_loop True i post s = Break r"
  shows "material_loop True i post s = Continue r \<and> l_end r = l_end s"
proof -
  have "(\<exists>s'. material_loop True i post s = Continue s' \<and> l_in_material s' \<and>
         l_begin s' = l_begin s \<and> l_end s' = l_end s) \<or>
        (\<exists>e. material_loop True i post s = Raise e)"
    using s post by (rule material_loop_inside)
  with ok show ?thesis by auto
qed


lemma drop_between:
  assumes "k < t" and "t < length xs"
  shows "drop (Suc k) xs = take (t - Suc k) (drop (Suc k) xs) @ xs ! t # drop (Suc t) xs"
proof -
  have "drop (Suc k) xs =
          take (t - Suc k) (drop (Suc k) xs) @ drop (t - Suc k) (drop (Suc k) xs)"
    by (rule append_take_drop_id [symmetric])
  moreover have "drop (t - Suc k) (drop (Suc k) xs) = drop t xs"
    using assms(1) by simp
  moreover have "drop t xs = xs ! t # drop (Suc t) xs"
    using assms(2) by (simp add: Cons_nth_drop_Suc)
  ultimately show ?thesis by simp
qed

lemma strict_block_range_general:
  assumes gr: "is_greedy m" and rd: "Material_read fs path m = (None, m')"
  shows "\<exists>body k. fs path = Some body \<and> k < length (readlines body) \<and>
     material (readlines body ! k) \<noteq> None \<and>
     (\<forall>j<k. material (readlines body ! j) = None) \<and>
     state_begin m' = Some (int k) \<and>
     (\<forall>t. k < t \<and> t < length (readlines body) \<and> terminator (readlines body ! t) \<and>
           (\<forall>j. k < j \<and> j < t \<longrightarrow> \<not> terminator (readlines body ! j)) \<longrightarrow>
          state_end m' = Some (int t - 1) \<and>
          (\<forall>ls'. take (Suc t) ls' = take (Suc t) (readlines body) \<longrightarrow>
             material_loop True 0 ls' locals_init =
             material_loop True 0 (readlines body) locals_init)) \<and>
     ((\<forall>j. k < j \<and> j < length (readlines body) \<longrightarrow> \<not> terminator (readlines body ! j)) \<longrightarrow>
          state_end m' = Some (int (length (readlines body)) - 1))"
proof -
  from Material_read_success [OF rd] obtain body s where
    body: "fs path = Some body" and
    loop0: "material_loop (is_greedy m) 0 (readlines body) locals_init = Continue s \<or>
            material_loop (is_greedy m) 0 (readlines body) locals_init = Break s" and
    store: "material_store path (length (readlines body)) s m = (None, m')"
    by blast
  let ?ls = "readlines body"
  from loop0 gr have loop: "material_loop True 0 ?ls locals_init = Continue s \<or>
            material_loop True 0 ?ls locals_init = Break s"
    by simp
  from material_store_success [OF store] obtain b e where
    b: "l_begin s = Some b" and
    e: "l_end s = Some e \<or> l_end s = None \<and> e = int (length ?ls) - 1" and
    mb: "state_begin m' = Some b" and me: "state_end m' = Some e"
    by auto
  have ex: "\<exists>l\<in>set ?ls. material l \<noteq> None"
  proof (rule ccontr)
    assume "\<not> (\<exists>l\<in>set ?ls. material l \<noteq> None)"
    then have "\<forall>l\<in>set ?ls. material l = None" by simp
    then have "material_loop True 0 ?ls locals_init = Continue locals_init \<or>
               (\<exists>e. material_loop True 0 ?ls locals_init = Raise e)"
      by (intro material_loop_outside) (simp_all add: locals_init_def)
    with loop have "s = locals_init" by auto
    with b show False by (simp add: locals_init_def)
  qed
  from first_index [OF ex] obtain k where
    k: "k < length ?ls" "material (?ls ! k) \<noteq> None" "\<forall>j<k. \<not> material (?ls ! j) \<noteq> None" and
    dec: "?ls = take k ?ls @ ?ls ! k # drop (Suc k) ?ls"
    by blast
  from k(2) obtain n where n: "material (?ls ! k) = Some n" by blast
  from k(3) have k3: "\<forall>j<k. material (?ls ! j) = None" by simp
  have pre: "\<forall>l\<in>set (take k ?ls). material l = None"
    using k(1) k3 by (auto simp: in_set_conv_nth)
  have okdec: "material_loop True 0 (take k ?ls @ ?ls ! k # drop (Suc k) ?ls) locals_init = Continue s \<or>
        material_loop True 0 (take k ?ls @ ?ls ! k # drop (Suc k) ?ls) locals_init = Break s"
    using loop by (simp only: dec [symmetric])
  define s0 where "s0 = entered (int k) n"
  have s0: "l_in_material s0" "l_end s0 = None" "l_begin s0 = Some (int k)"
    by (simp_all add: s0_def entered_def)
  have enter: "material_loop True 0 (take k ?ls @ ?ls ! k # post) locals_init =
                 material_loop True (int k + 1) post s0" for post
    using material_loop_enter [OF pre n okdec, of post] k(1) by (simp add: s0_def)
  have r: "material_loop True (int k + 1) (drop (Suc k) ?ls) s0 = Continue s \<or>
           material_loop True (int k + 1) (drop (Suc k) ?ls) s0 = Break s"
    using okdec unfolding enter .
  have "l_begin s = l_begin s0"
    using s0(1) r by (rule material_loop_begin)
  with b s0(3) mb have bg: "state_begin m' = Some (int k)" by simp
  have stop: "\<forall>t. k < t \<and> t < length ?ls \<and> terminator (?ls ! t) \<and>
           (\<forall>j. k < j \<and> j < t \<longrightarrow> \<not> terminator (?ls ! j)) \<longrightarrow>
          state_end m' = Some (int t - 1) \<and>
          (\<forall>ls'. take (Suc t) ls' = take (Suc t) ?ls \<longrightarrow>
             material_loop True 0 ls' locals_init = material_loop True 0 ?ls locals_init)"
  proof (intro allI impI)
    fix t
    assume a: "k < t \<and> t < length ?ls \<and> terminator (?ls ! t) \<and>
           (\<forall>j. k < j \<and> j < t \<longrightarrow> \<not> terminator (?ls ! j))"
    then have t: "k < t" "t < length ?ls" "terminator (?ls ! t)"
      "\<forall>j. k < j \<and> j < t \<longrightarrow> \<not> terminator (?ls ! j)"
      by blast+
    define mid where "mid = take (t - Suc k) (drop (Suc k) ?ls)"
    have pfx: "take (Suc t) ?ls = take k ?ls @ ?ls ! k # mid @ [?ls ! t]"
      unfolding mid_def by (rule take_between [OF t(1,2)])
    have d2: "drop (Suc k) ?ls = mid @ ?ls ! t # drop (Suc t) ?ls"
      unfolding mid_def by (rule drop_between [OF t(1,2)])
    have midlen: "length mid = t - Suc k"
      using t(1,2) by (simp add: mid_def)
    have nomid: "\<forall>l\<in>set mid. \<not> terminator l"
    proof
      fix l assume "l \<in> set mid"
      then have "l \<in> set (take (t - Suc k) (drop (Suc k) ?ls))" by (simp add: mid_def)
      from set_take_drop_between [OF this]
      obtain j where "k < j" "j < Suc k + (t - Suc k)" "l = ?ls ! j"
        by blast
      with t(1,4) show "\<not> terminator l" by simp
    qed
    have ok2: "material_loop True (int k + 1) (mid @ ?ls ! t # drop (Suc t) ?ls) s0 = Continue s \<or>
               material_loop True (int k + 1) (mid @ ?ls ! t # drop (Suc t) ?ls) s0 = Break s"
      using r unfolding d2 .
    from material_loop_stop [OF s0(1) nomid t(3) ok2] obtain s' where
      s': "material_loop True (int k + 1) (mid @ [?ls ! t]) s0 = Break s'"
      "l_end s' = Some (int k + 1 + int (length mid) - 1)"
      by blast
    have br: "material_loop True 0 (take (Suc t) ?ls) locals_init = Break s'"
      unfolding pfx enter by (rule s'(1))
    have all: "material_loop True 0 xs locals_init = Break s'"
      if "take (Suc t) xs = take (Suc t) ?ls" for xs
    proof -
      have "material_loop True 0 (take (Suc t) ?ls @ drop (Suc t) xs) locals_init = Break s'"
        by (rule material_loop_Break_append [OF br])
      moreover have "take (Suc t) ?ls @ drop (Suc t) xs = xs"
        using that append_take_drop_id [of "Suc t" xs] by metis
      ultimately show ?thesis by simp
    qed
    have brk: "material_loop True 0 ?ls locals_init = Break s'"
      by (rule all) (rule refl)
    with loop have "s = s'" by simp
    with s'(2) have "l_end s = Some (int k + 1 + int (length mid) - 1)" by simp
    moreover have "int k + 1 + int (length mid) - 1 = int t - 1"
      using midlen t(1) by simp
    ultimately have "e = int t - 1" using e by simp
    with me have g1: "state_end m' = Some (int t - 1)" by simp
    have g2: "\<forall>ls'. take (Suc t) ls' = take (Suc t) ?ls \<longrightarrow>
             material_loop True 0 ls' locals_init = material_loop True 0 ?ls locals_init"
    proof (intro allI impI)
      fix ls' assume "take (Suc t) ls' = take (Suc t) ?ls"
      then have "material_loop True 0 ls' locals_init = Break s'" by (rule all)
      with brk show "material_loop True 0 ls' locals_init = material_loop True 0 ?ls locals_init"
        by simp
    qed
    from g1 g2 show "state_end m' = Some (int t - 1) \<and>
          (\<forall>ls'. take (Suc t) ls' = take (Suc t) ?ls \<longrightarrow>
             material_loop True 0 ls' locals_init = material_loop True 0 ?ls locals_init)"
      by (rule conjI)
  qed
  have eof: "(\<forall>j. k < j \<and> j < length ?ls \<longrightarrow> \<not> terminator (?ls ! j)) \<longrightarrow>
          state_end m' = Some (int (length ?ls) - 1)"
  proof
    assume none: "\<forall>j. k < j \<and> j < length ?ls \<longrightarrow> \<not> terminator (?ls ! j)"
    have "\<forall>l\<in>set (drop (Suc k) ?ls). \<not> terminator l"
    proof
      fix l assume "l \<in> set (drop (Suc k) ?ls)"
      then have "l \<in> set (take (length ?ls) (drop (Suc k) ?ls))" by simp
      from set_take_drop_between [OF this]
      obtain j where "k < j" "j < length ?ls" "l = ?ls ! j"
        by blast
      with none show "\<not> terminator l" by simp
    qed
    from material_loop_eof [OF s0(1) this r] s0(2) have "l_end s = None" by simp
    with e me show "state_end m' = Some (int (length ?ls) - 1)" by simp
  qed
  have main: "fs path = Some body \<and> k < length ?ls \<and>
     material (?ls ! k) \<noteq> None \<and> (\<forall>j<k. material (?ls ! j) = None) \<and>
     state_begin m' = Some (int k) \<and>
     (\<forall>t. k < t \<and> t < length ?ls \<and> terminator (?ls ! t) \<and>
           (\<forall>j. k < j \<and> j < t \<longrightarrow> \<not> terminator (?ls ! j)) \<longrightarrow>
          state_end m' = Some (int t - 1) \<and>
          (\<forall>ls'. take (Suc t) ls' = take (Suc t) ?ls \<longrightarrow>
             material_loop True 0 ls' locals_init = material_loop True 0 ?ls locals_init)) \<and>
     ((\<forall>j. k < j \<and> j < length ?ls \<longrightarrow> \<not> terminator (?ls ! j)) \<longrightarrow>
          state_end m' = Some (int (length ?ls) - 1))"
    by (intro conjI body k(1) k(2) k3 bg stop eof)
  show ?thesis
    by (rule exI [of _ body], rule exI [of _ k]) (rule main)
qed


text \<open>
  Claim C1 says that in strict mode a keyword line or comment line met inside the block
  ends the scan with \<open>end\<close> = its index - 1. In the claim's own example line 1 is the
  keyword line \<^verbatim>\<open>*Elastic\<close>, met inside the block, and the scan does not stop there: the
  branches for material lines and behavior lines come first. \<open>end\<close> is 2, not \<open>1 - 1\<close>.
\<close>

theorem strict_stop_counterexample:
  "is_greedy (Material_init True) \<and>
   readlines example_text ! 1 = ''*Elastic\<newline>'' \<and>
   generalkeyword (readlines example_text ! 1) \<and>
   material_loop True 0 (take 1 (readlines example_text)) locals_init =
     Continue \<lparr>l_in_material = True, l_begin = Some 0, l_end = None,
       l_material_name = Some ''A'', l_behavior_name = None, l_materials = [(''A'', [])]\<rparr> \<and>
   Material_read example_files ''f.inp'' (Material_init True) = (None, strict_result) \<and>
   state_end strict_result \<noteq> Some (1 - 1)"
  by code_simp

text \<open>
  Claim C1 as amended. In strict mode, when the read succeeds, \<open>begin\<close> is the index \<open>k\<close>
  of the first material line. The scan stops at the first later line \<open>t\<close> that is a keyword
  line or comment line and neither a material line nor a behavior line: then
  \<open>end = t - 1\<close> and no line after \<open>t\<close> is read (any file with the same first \<open>t + 1\<close> lines
  gives the same outcome). With no such line, \<open>end\<close> is the index of the last line. For
  the five lines of the example, \<open>begin = 0\<close> and \<open>end = 2\<close>.
\<close>

theorem strict_block_range:
  "(is_greedy m \<and> Material_read fs path m = (None, m') \<longrightarrow>
    (\<exists>body k. fs path = Some body \<and> k < length (readlines body) \<and>
     material (readlines body ! k) \<noteq> None \<and>
     (\<forall>j<k. material (readlines body ! j) = None) \<and>
     state_begin m' = Some (int k) \<and>
     (\<forall>t. k < t \<and> t < length (readlines body) \<and> terminator (readlines body ! t) \<and>
           (\<forall>j. k < j \<and> j < t \<longrightarrow> \<not> terminator (readlines body ! j)) \<longrightarrow>
          state_end m' = Some (int t - 1) \<and>
          (\<forall>ls'. take (Suc t) ls' = take (Suc t) (readlines body) \<longrightarrow>
             material_loop True 0 ls' locals_init =
             material_loop True 0 (readlines body) locals_init)) \<and>
     ((\<forall>j. k < j \<and> j < length (readlines body) \<longrightarrow> \<not> terminator (readlines body ! j)) \<longrightarrow>
          state_end m' = Some (int (length (readlines body)) - 1)))) \<and>
   readlines example_text =
     [''*Material, name=A\<newline>'', ''*Elastic\<newline>'', ''1,0.3\<newline>'', ''*Step\<newline>'', ''...\<newline>''] \<and>
   Material_read example_files ''f.inp'' (Material_init True) = (None, strict_result) \<and>
   state_begin strict_result = Some 0 \<and> state_end strict_result = Some 2"
proof (intro conjI impI)
  assume "is_greedy m \<and> Material_read fs path m = (None, m')"
  then have "is_greedy m" "Material_read fs path m = (None, m')" by blast+
  then show "\<exists>body k. fs path = Some body \<and> k < length (readlines body) \<and>
     material (readlines body ! k) \<noteq> None \<and>
     (\<forall>j<k. material (readlines body ! j) = None) \<and>
     state_begin m' = Some (int k) \<and>
     (\<forall>t. k < t \<and> t < length (readlines body) \<and> terminator (readlines body ! t) \<and>
           (\<forall>j. k < j \<and> j < t \<longrightarrow> \<not> terminator (readlines body ! j)) \<longrightarrow>
          state_end m' = Some (int t - 1) \<and>
          (\<forall>ls'. take (Suc t) ls' = take (Suc t) (readlines body) \<longrightarrow>
             material_loop True 0 ls' locals_init =
             material_loop True 0 (readlines body) locals_init)) \<and>
     ((\<forall>j. k < j \<and> j < length (readlines body) \<longrightarrow> \<not> terminator (readlines body ! j)) \<longrightarrow>
          state_end m' = Some (int (length (readlines body)) - 1))"
    by (rule strict_block_range_general)
qed code_simp+

theorem strict_block_range_witness:
  "is_greedy (Material_init True) \<and>
   Material_read example_files ''f.inp'' (Material_init True) = (None, strict_result) \<and>
   terminator (readlines example_text ! 3) \<and>
   state_begin strict_result = Some (int 0) \<and>
   state_end strict_result = Some (int 3 - 1) \<and>
   Material_read block_only_files ''b.inp'' (Material_init True) = (None, block_only_result) \<and>
   state_end block_only_result = Some (int (length (readlines block_only_text)) - 1)"
proof -
  have g: "is_greedy (Material_init True)" by code_simp
  have h: "Material_read example_files ''f.inp'' (Material_init True) = (None, strict_result)"
    by code_simp
  from g h have gh: "is_greedy (Material_init True) \<and>
      Material_read example_files ''f.inp'' (Material_init True) = (None, strict_result)"
    by (rule conjI)
  from mp [OF strict_block_range [of "Material_init True" example_files "''f.inp''" strict_result,
                THEN conjunct1] gh]
  obtain body k where
    p: "example_files ''f.inp'' = Some body" "\<forall>j<k. material (readlines body ! j) = None"
      "state_begin strict_result = Some (int k)" and
    st: "\<forall>t. k < t \<and> t < length (readlines body) \<and> terminator (readlines body ! t) \<and>
           (\<forall>j. k < j \<and> j < t \<longrightarrow> \<not> terminator (readlines body ! j)) \<longrightarrow>
          state_end strict_result = Some (int t - 1) \<and>
          (\<forall>ls'. take (Suc t) ls' = take (Suc t) (readlines body) \<longrightarrow>
             material_loop True 0 ls' locals_init =
             material_loop True 0 (readlines body) locals_init)"
    by (elim exE conjE)
  have "example_files ''f.inp'' = Some example_text" by code_simp
  with p(1) have body: "body = example_text" by simp
  have n0: "material (readlines example_text ! 0) \<noteq> None" by code_simp
  have k0: "k = 0"
  proof (rule ccontr)
    assume "k \<noteq> 0"
    then have "0 < k" by simp
    with p(2) have "material (readlines body ! 0) = None" by blast
    with n0 body show False by simp
  qed
  have c1: "3 < length (readlines example_text)" by code_simp
  have c2: "terminator (readlines example_text ! 3)" by code_simp
  have c3: "\<not> terminator (readlines example_text ! 1)" "\<not> terminator (readlines example_text ! 2)"
    by code_simp+
  have c4: "\<forall>j. 0 < j \<and> j < 3 \<longrightarrow> \<not> terminator (readlines example_text ! j)"
  proof (intro allI impI)
    fix j :: nat assume "0 < j \<and> j < 3"
    then have "j = 1 \<or> j = 2" by auto
    with c3 show "\<not> terminator (readlines example_text ! j)" by auto
  qed
  from st [unfolded body k0] have
    "0 < (3::nat) \<and> 3 < length (readlines example_text) \<and> terminator (readlines example_text ! 3) \<and>
           (\<forall>j. 0 < j \<and> j < 3 \<longrightarrow> \<not> terminator (readlines example_text ! j)) \<longrightarrow>
          state_end strict_result = Some (int 3 - 1) \<and>
          (\<forall>ls'. take (Suc 3) ls' = take (Suc 3) (readlines example_text) \<longrightarrow>
             material_loop True 0 ls' locals_init =
             material_loop True 0 (readlines example_text) locals_init)"
    by (rule spec)
  with c1 c2 c4 have r1: "state_end strict_result = Some (int 3 - 1)" by simp
  from p(3) k0 have r0: "state_begin strict_result = Some (int 0)" by simp
  have h2: "Material_read block_only_files ''b.inp'' (Material_init True) = (None, block_only_result)"
    by code_simp
  from g h2 have gh2: "is_greedy (Material_init True) \<and>
      Material_read block_only_files ''b.inp'' (Material_init True) = (None, block_only_result)"
    by (rule conjI)
  from mp [OF strict_block_range [of "Material_init True" block_only_files "''b.inp''"
                block_only_result, THEN conjunct1] gh2]
  obtain body2 k2 where
    q: "block_only_files ''b.inp'' = Some body2" and
    eo: "(\<forall>j. k2 < j \<and> j < length (readlines body2) \<longrightarrow> \<not> terminator (readlines body2 ! j)) \<longrightarrow>
          state_end block_only_result = Some (int (length (readlines body2)) - 1)"
    by (elim exE conjE)
  have "block_only_files ''b.inp'' = Some block_only_text" by code_simp
  with q have body2: "body2 = block_only_text" by simp
  have d: "\<forall>l\<in>set (readlines block_only_text). \<not> terminator l" by code_simp
  have "\<forall>j. k2 < j \<and> j < length (readlines block_only_text) \<longrightarrow>
           \<not> terminator (readlines block_only_text ! j)"
    using d by simp
  with eo [unfolded body2]
  have r2: "state_end block_only_result = Some (int (length (readlines block_only_text)) - 1)"
    by (rule mp)
  from g h c2 r0 r1 h2 r2 show ?thesis by (intro conjI)
qed

section \<open>The range recorded by Material.read\<close>

lemma dict_set_not_Nil: "dict_set k v d \<noteq> []"
  by (cases d) (auto split: if_splits)

lemma material_step_nonempty:
  assumes "material_step g i l s = Continue s' \<or> material_step g i l s = Break s'"
    and "l_begin s \<noteq> None \<longrightarrow> l_materials s \<noteq> []"
  shows "l_begin s' \<noteq> None \<longrightarrow> l_materials s' \<noteq> []"
  using assms
  by (auto simp: material_step_def Let_def dict_set_not_Nil split: option.splits if_splits)

lemma material_loop_nonempty:
  assumes "material_loop g i ls s = Continue s' \<or> material_loop g i ls s = Break s'"
    and "l_begin s \<noteq> None \<longrightarrow> l_materials s \<noteq> []"
  shows "l_begin s' \<noteq> None \<longrightarrow> l_materials s' \<noteq> []"
  using assms
proof (induction ls arbitrary: i s)
  case Nil
  then show ?case by simp
next
  case (Cons l ls)
  show ?case
  proof (cases "material_step g i l s")
    case (Continue s1)
    then have "l_begin s1 \<noteq> None \<longrightarrow> l_materials s1 \<noteq> []"
      using Cons.prems(2) by (intro material_step_nonempty [of g i l s s1]) simp_all
    moreover from Cons.prems(1) Continue
    have "material_loop g (i + 1) ls s1 = Continue s' \<or> material_loop g (i + 1) ls s1 = Break s'"
      by simp
    ultimately show ?thesis by (intro Cons.IH [of "i + 1" s1])
  next
    case (Break s1)
    with Cons.prems(1) have "s1 = s'" by simp
    with Break Cons.prems(2) show ?thesis
      by (intro material_step_nonempty [of g i l s s']) simp_all
  next
    case (Raise e)
    with Cons.prems(1) show ?thesis by simp
  qed
qed

lemma material_loop_first:
  assumes "material_loop g i ls locals_init = Continue s \<or>
           material_loop g i ls locals_init = Break s"
    and "l_begin s = Some b"
  shows "\<exists>k<length ls. b = i + int k \<and>
           material_loop g i (take k ls) locals_init = Continue locals_init"
  using assms
proof (induction ls arbitrary: i)
  case Nil
  then show ?case by (auto simp: locals_init_def)
next
  case (Cons l ls)
  show ?case
  proof (cases "material l")
    case None
    then have "material_step g i l locals_init = Continue locals_init \<or>
               (\<exists>e. material_step g i l locals_init = Raise e)"
      by (intro material_step_outside) (simp_all add: locals_init_def)
    moreover have "material_step g i l locals_init \<noteq> Raise e" for e
      using Cons.prems(1) by (auto split: outcome.splits)
    ultimately have st: "material_step g i l locals_init = Continue locals_init" by blast
    with Cons.prems(1) have "material_loop g (i + 1) ls locals_init = Continue s \<or>
           material_loop g (i + 1) ls locals_init = Break s"
      by simp
    from Cons.IH [OF this Cons.prems(2)] obtain k where
      k: "k < length ls" "b = i + 1 + int k"
         "material_loop g (i + 1) (take k ls) locals_init = Continue locals_init"
      by auto
    have "Suc k < length (l # ls)" using k(1) by simp
    moreover have "b = i + int (Suc k)" using k(2) by simp
    moreover have "material_loop g i (take (Suc k) (l # ls)) locals_init = Continue locals_init"
      using st k(3) by simp
    ultimately show ?thesis by blast
  next
    case (Some n)
    let ?s1 = "locals_init\<lparr>l_in_material := True, l_begin := Some i, l_material_name := Some n,
                 l_materials := dict_set n [] (l_materials locals_init)\<rparr>"
    have st: "material_step g i l locals_init = Continue ?s1"
      using Some by (intro material_step_enter) (simp_all add: locals_init_def)
    with Cons.prems(1) have "material_loop g (i + 1) ls ?s1 = Continue s \<or>
           material_loop g (i + 1) ls ?s1 = Break s"
      by simp
    then have "l_begin s = l_begin ?s1"
      by (intro material_loop_begin [of ?s1 g "i + 1" ls s]) simp_all
    with Cons.prems(2) have "b = i" by simp
    then have "0 < length (l # ls) \<and> b = i + int 0 \<and>
        material_loop g i (take 0 (l # ls)) locals_init = Continue locals_init"
      by simp
    then show ?thesis by blast
  qed
qed

lemma material_loop_Break_index:
  "material_loop g i ls s = Break s' \<Longrightarrow>
   \<exists>t<length ls. \<exists>s1. material_loop g i (take t ls) s = Continue s1 \<and>
      material_step g (i + int t) (ls ! t) s1 = Break s'"
proof (induction ls arbitrary: i s)
  case Nil
  then show ?case by simp
next
  case (Cons l ls)
  show ?case
  proof (cases "material_step g i l s")
    case (Continue s1)
    with Cons.prems have "material_loop g (i + 1) ls s1 = Break s'" by simp
    from Cons.IH [OF this] obtain t s2 where
      t: "t < length ls" "material_loop g (i + 1) (take t ls) s1 = Continue s2"
         "material_step g (i + 1 + int t) (ls ! t) s2 = Break s'"
      by auto
    have "Suc t < length (l # ls)" using t(1) by simp
    moreover have "material_loop g i (take (Suc t) (l # ls)) s = Continue s2"
      using Continue t(2) by simp
    moreover have "material_step g (i + int (Suc t)) ((l # ls) ! Suc t) s2 = Break s'"
      using t(3) by (simp add: algebra_simps)
    ultimately show ?thesis by blast
  next
    case (Break s1)
    with Cons.prems have "s1 = s'" by simp
    with Break have "0 < length (l # ls) \<and> material_loop g i (take 0 (l # ls)) s = Continue s \<and>
      material_step g (i + int 0) ((l # ls) ! 0) s = Break s'"
      by simp
    then show ?thesis by blast
  next
    case (Raise e)
    with Cons.prems show ?thesis by simp
  qed
qed

lemma material_step_Break_end:
  "material_step g i l s = Break s' \<Longrightarrow> l_end s' = Some (i - 1)"
  by (auto simp: material_step_def Let_def split: option.splits if_splits)

lemma material_step_Break_any:
  "material_step g i l s = Break s' \<Longrightarrow> l_in_material s2 \<Longrightarrow>
   material_step g j l s2 = Break (s2\<lparr>l_end := Some (j - 1)\<rparr>)"
  by (auto simp: material_step_def Let_def split: option.splits if_splits)

lemma material_step_bound:
  assumes "material_step g i l s = Continue s'"
    and "l_in_material s \<longrightarrow> (\<exists>b. l_begin s = Some b \<and> b < i)"
  shows "l_in_material s' \<longrightarrow> (\<exists>b. l_begin s' = Some b \<and> b < i + 1)"
  using assms
  by (auto simp: material_step_def Let_def split: option.splits if_splits)

lemma material_loop_bound:
  assumes "material_loop g i ls s = Continue s'"
    and "l_in_material s \<longrightarrow> (\<exists>b. l_begin s = Some b \<and> b < i)"
  shows "l_in_material s' \<longrightarrow> (\<exists>b. l_begin s' = Some b \<and> b < i + int (length ls))"
  using assms
proof (induction ls arbitrary: i s)
  case Nil
  then show ?case by simp
next
  case (Cons l ls)
  show ?case
  proof (cases "material_step g i l s")
    case (Continue s1)
    from material_step_bound [OF Continue Cons.prems(2)]
    have inv: "l_in_material s1 \<longrightarrow> (\<exists>b. l_begin s1 = Some b \<and> b < i + 1)" .
    from Cons.prems(1) Continue have "material_loop g (i + 1) ls s1 = Continue s'" by simp
    from Cons.IH [OF this inv] show ?thesis by (simp add: algebra_simps)
  next
    case (Break s1)
    with Cons.prems(1) show ?thesis by simp
  next
    case (Raise e)
    with Cons.prems(1) show ?thesis by simp
  qed
qed

lemma material_step_Break_in:
  "material_step g i l s = Break s' \<Longrightarrow> l_in_material s \<and> l_begin s' = l_begin s"
  by (auto simp: material_step_def Let_def split: option.splits if_splits)

lemma material_loop_range:
  assumes ok: "material_loop g 0 ls locals_init = Continue s \<or>
               material_loop g 0 ls locals_init = Break s"
    and b: "l_begin s = Some b"
    and e: "l_end s = Some e \<or> l_end s = None \<and> 0 < length ls \<and> e = int (length ls) - 1"
  shows "\<exists>k t. b = int k \<and> e = int t - 1 \<and> k < t \<and> t \<le> length ls \<and>
           material_loop g 0 (take k ls) locals_init = Continue locals_init \<and>
           (material_loop g 0 ls locals_init = Continue s \<and> t = length ls \<or>
            t < length ls \<and>
            (\<exists>s1. material_loop g 0 (take t ls) locals_init = Continue s1 \<and>
                  l_in_material s1 \<and> material_step g (int t) (ls ! t) s1 = Break s))"
proof -
  from material_loop_first [OF ok b] obtain k where
    k: "k < length ls" "b = int k"
       "material_loop g 0 (take k ls) locals_init = Continue locals_init"
    by auto
  from ok show ?thesis
  proof
    assume c: "material_loop g 0 ls locals_init = Continue s"
    then have "l_end s = l_end locals_init" by (rule material_loop_Continue_end)
    then have "l_end s = None" by (simp add: locals_init_def)
    with e have "e = int (length ls) - 1" by simp
    with k c show ?thesis by blast
  next
    assume br: "material_loop g 0 ls locals_init = Break s"
    from material_loop_Break_index [OF br] obtain t s1 where
      t: "t < length ls" "material_loop g 0 (take t ls) locals_init = Continue s1"
         "material_step g (int t) (ls ! t) s1 = Break s"
      by auto
    from material_step_Break_end [OF t(3)] e have e': "e = int t - 1" by simp
    from material_step_Break_in [OF t(3)] have in1: "l_in_material s1"
      and bs: "l_begin s = l_begin s1" by simp_all
    have "l_in_material s1 \<longrightarrow> (\<exists>b. l_begin s1 = Some b \<and> b < 0 + int (length (take t ls)))"
      using t(2) by (rule material_loop_bound) (simp add: locals_init_def)
    with in1 bs b t(1) have "int k < int t" by (auto simp: k(2))
    then have "k < t" by simp
    with k e' t in1 show ?thesis by (intro exI [of _ k] exI [of _ t]) auto
  qed
qed

text \<open>
  A read that succeeds: \<open>begin\<close> is a line index \<open>k\<close>, \<open>end\<close> is \<open>t - 1\<close> for a \<open>t\<close> with
  \<open>k < t\<close> that is either the number of lines, when the loop ran to the end of the file,
  or the index of the line at which the loop was left.
\<close>

lemma Material_read_range:
  assumes rd: "Material_read fs path m0 = (None, m)"
  shows "\<exists>body s k t. fs path = Some body \<and>
           m = m0\<lparr>inp_file := path, materials := l_materials s, state_begin := Some (int k),
                  state_end := Some (int t - 1), state_read := True\<rparr> \<and>
           l_materials s \<noteq> [] \<and> k < t \<and> t \<le> length (readlines body) \<and>
           l_begin s = Some (int k) \<and>
           (material_loop (is_greedy m0) 0 (readlines body) locals_init = Continue s \<or>
            material_loop (is_greedy m0) 0 (readlines body) locals_init = Break s) \<and>
           material_loop (is_greedy m0) 0 (take k (readlines body)) locals_init
             = Continue locals_init \<and>
           (material_loop (is_greedy m0) 0 (readlines body) locals_init = Continue s \<and>
              t = length (readlines body) \<or>
            t < length (readlines body) \<and>
            (\<exists>s1. material_loop (is_greedy m0) 0 (take t (readlines body)) locals_init
                     = Continue s1 \<and> l_in_material s1 \<and>
                  material_step (is_greedy m0) (int t) (readlines body ! t) s1 = Break s))"
proof -
  from Material_read_success [OF rd] obtain body s where
    body: "fs path = Some body" and
    loop: "material_loop (is_greedy m0) 0 (readlines body) locals_init = Continue s \<or>
           material_loop (is_greedy m0) 0 (readlines body) locals_init = Break s" and
    store: "material_store path (length (readlines body)) s m0 = (None, m)"
    by blast
  from material_store_success [OF store] obtain b e where
    b: "l_begin s = Some b" and
    e: "l_end s = Some e \<or> l_end s = None \<and> 0 < length (readlines body) \<and>
          e = int (length (readlines body)) - 1" and
    m: "m = m0\<lparr>inp_file := path, materials := l_materials s, state_begin := Some b,
                  state_end := Some e, state_read := True\<rparr>"
    by blast
  from material_loop_range [OF loop b e] obtain k t where
    kt: "b = int k" "e = int t - 1" "k < t" "t \<le> length (readlines body)"
      "material_loop (is_greedy m0) 0 (take k (readlines body)) locals_init
         = Continue locals_init"
      "material_loop (is_greedy m0) 0 (readlines body) locals_init = Continue s \<and>
              t = length (readlines body) \<or>
            t < length (readlines body) \<and>
            (\<exists>s1. material_loop (is_greedy m0) 0 (take t (readlines body)) locals_init
                     = Continue s1 \<and> l_in_material s1 \<and>
                  material_step (is_greedy m0) (int t) (readlines body ! t) s1 = Break s)"
    by blast
  have "l_begin s \<noteq> None \<longrightarrow> l_materials s \<noteq> []"
    using loop by (rule material_loop_nonempty) (simp add: locals_init_def)
  with b have ne: "l_materials s \<noteq> []" by simp
  from b kt(1) have b': "l_begin s = Some (int k)" by simp
  from m kt(1,2) have m': "m = m0\<lparr>inp_file := path, materials := l_materials s,
      state_begin := Some (int k), state_end := Some (int t - 1), state_read := True\<rparr>"
    by simp
  show ?thesis
    by (rule exI [of _ body], rule exI [of _ s], rule exI [of _ k], rule exI [of _ t])
       (intro conjI body m' ne kt(3) kt(4) b' loop kt(5) kt(6))
qed

section \<open>The splice of Material.write and Material.remove\<close>

lemma write_splice:
  assumes "materials m \<noteq> []" and "state_read m" and "state_begin m = Some b"
    and "state_end m = Some e" and "fs (inp_file m) = Some body"
  shows "Material_write listdir fs output_file m =
        Inr (fs(out_path output_file (inp_file m) \<mapsto>
               concat ((if 0 \<le> b then take (nat b) (readlines body)
                        else take (length (readlines body) - nat (- b)) (readlines body)) @
                       Material_format m @
                       (if 0 \<le> e + 1 then drop (nat (e + 1)) (readlines body)
                        else drop (length (readlines body) - nat (- (e + 1))) (readlines body)))))"
  using assms
  by (simp add: Material_write_def splice_def slice_to_def slice_from_def
      validate_file_write_def Let_def)

text \<open>
  Claim C2. For an instance with a hierarchy that is not empty, read from a file that is
  still there, with the recorded range \<open>(b, e)\<close>, \<^verbatim>\<open>write\<close> stores at the output path the
  text of \<^verbatim>\<open>old[0:b]\<close>, then the serialized hierarchy, then \<^verbatim>\<open>old[e+1:]\<close>, where \<open>old\<close>
  are the lines of the source file; the two slices are written out: the first \<open>b\<close> lines
  and the lines from index \<open>e + 1\<close> on, a negative bound counting from the end. The range
  a read records is \<open>(k, t - 1)\<close> with \<open>k < t\<close> and \<open>t\<close> at most the number of lines, so
  \<^verbatim>\<open>write\<close> after a read stores the first \<open>k\<close> lines, the serialized hierarchy and the
  lines from \<open>t\<close> on. \<^verbatim>\<open>remove\<close>, when its read succeeds, stores \<^verbatim>\<open>old[0:b] + old[e+1:]\<close> for
  the range that its read recorded; its read is permissive, so \<open>e\<close> is the index of the
  last line, \<^verbatim>\<open>old[e+1:]\<close> is empty and the text stored is that of the first \<open>b\<close> lines.
  When its read raises, \<^verbatim>\<open>remove\<close> raises the same exception and stores nothing.
\<close>

theorem splice_equation:
  "(materials m \<noteq> [] \<and> state_read m \<and> state_begin m = Some b \<and> state_end m = Some e \<and>
    fs (inp_file m) = Some body \<longrightarrow>
      Material_write listdir fs output_file m =
        Inr (fs(out_path output_file (inp_file m) \<mapsto>
               concat ((if 0 \<le> b then take (nat b) (readlines body)
                        else take (length (readlines body) - nat (- b)) (readlines body)) @
                       Material_format m @
                       (if 0 \<le> e + 1 then drop (nat (e + 1)) (readlines body)
                        else drop (length (readlines body) - nat (- (e + 1))) (readlines body)))))) \<and>
   (Material_read fs path m0 = (None, m) \<longrightarrow>
      (\<exists>body k t. fs path = Some body \<and> state_begin m = Some (int k) \<and>
         state_end m = Some (int t - 1) \<and> k < t \<and> t \<le> length (readlines body) \<and>
         Material_write listdir fs output_file m =
           Inr (fs(out_path output_file path \<mapsto>
                  concat (take k (readlines body) @ Material_format m @
                          drop t (readlines body)))))) \<and>
   (Material_read fs path (Material_init False) = (None, a) \<longrightarrow>
      (\<exists>body k. fs path = Some body \<and> k < length (readlines body) \<and>
         state_begin a = Some (int k) \<and>
         state_end a = Some (int (length (readlines body)) - 1) \<and>
         Material_remove fs path output_file =
           Inr (fs(out_path output_file path \<mapsto>
                  concat (take k (readlines body) @
                          drop (length (readlines body)) (readlines body)))) \<and>
         Material_remove fs path output_file =
           Inr (fs(out_path output_file path \<mapsto> concat (take k (readlines body)))))) \<and>
   (Material_read fs path (Material_init False) = (Some err, a) \<longrightarrow>
      Material_remove fs path output_file = Inl err)"
proof (intro conjI impI)
  assume "materials m \<noteq> [] \<and> state_read m \<and> state_begin m = Some b \<and> state_end m = Some e \<and>
    fs (inp_file m) = Some body"
  then show "Material_write listdir fs output_file m =
        Inr (fs(out_path output_file (inp_file m) \<mapsto>
               concat ((if 0 \<le> b then take (nat b) (readlines body)
                        else take (length (readlines body) - nat (- b)) (readlines body)) @
                       Material_format m @
                       (if 0 \<le> e + 1 then drop (nat (e + 1)) (readlines body)
                        else drop (length (readlines body) - nat (- (e + 1))) (readlines body)))))"
    by (intro write_splice) simp_all
next
  assume rd: "Material_read fs path m0 = (None, m)"
  from Material_read_range [OF rd]
  show "\<exists>body k t. fs path = Some body \<and> state_begin m = Some (int k) \<and>
         state_end m = Some (int t - 1) \<and> k < t \<and> t \<le> length (readlines body) \<and>
         Material_write listdir fs output_file m =
           Inr (fs(out_path output_file path \<mapsto>
                  concat (take k (readlines body) @ Material_format m @
                          drop t (readlines body))))"
  proof (elim exE conjE)
    fix body s k t
    assume body: "fs path = Some body"
      and m: "m = m0\<lparr>inp_file := path, materials := l_materials s,
                  state_begin := Some (int k), state_end := Some (int t - 1),
                  state_read := True\<rparr>"
      and ne: "l_materials s \<noteq> []" and kt: "k < t" "t \<le> length (readlines body)"
    from m have f: "inp_file m = path" "state_read m" "state_begin m = Some (int k)"
        "state_end m = Some (int t - 1)" "materials m = l_materials s"
      by simp_all
    from ne f(5) have ne': "materials m \<noteq> []" by simp
    from body f(1) have body': "fs (inp_file m) = Some body" by simp
    from write_splice [where fs = fs and m = m and listdir = listdir
        and output_file = output_file, OF ne' f(2) f(3) f(4) body']
    have w: "Material_write listdir fs output_file m =
             Inr (fs(out_path output_file path \<mapsto>
                    concat (take k (readlines body) @ Material_format m @
                            drop t (readlines body))))"
      by (simp add: f(1))
    show ?thesis
      by (rule exI [of _ body], rule exI [of _ k], rule exI [of _ t])
         (intro conjI body f(3) f(4) kt w)
  qed
next
  assume rd: "Material_read fs path (Material_init False) = (None, a)"
  have g: "is_greedy (Material_init False) = False" by (simp add: Material_init_def)
  from Material_read_range [OF rd, unfolded g]
  show "\<exists>body k. fs path = Some body \<and> k < length (readlines body) \<and>
         state_begin a = Some (int k) \<and>
         state_end a = Some (int (length (readlines body)) - 1) \<and>
         Material_remove fs path output_file =
           Inr (fs(out_path output_file path \<mapsto>
                  concat (take k (readlines body) @
                          drop (length (readlines body)) (readlines body)))) \<and>
         Material_remove fs path output_file =
           Inr (fs(out_path output_file path \<mapsto> concat (take k (readlines body))))"
  proof (elim exE conjE)
    fix body s k t
    assume body: "fs path = Some body"
      and m: "a = (Material_init False)\<lparr>inp_file := path, materials := l_materials s,
             state_begin := Some (int k), state_end := Some (int t - 1), state_read := True\<rparr>"
      and kt: "k < t" "t \<le> length (readlines body)"
      and cases: "material_loop False 0 (readlines body) locals_init
                = Continue s \<and> t = length (readlines body) \<or>
              t < length (readlines body) \<and>
              (\<exists>s1. material_loop False 0 (take t (readlines body))
                       locals_init = Continue s1 \<and> l_in_material s1 \<and>
                    material_step False (int t) (readlines body ! t) s1 = Break s)"
    from cases have t: "t = length (readlines body)"
      by (auto simp: material_step_permissive_no_Break)
    from m have f: "state_begin a = Some (int k)" "state_end a = Some (int t - 1)"
      by simp_all
    from kt(1) t have k: "k < length (readlines body)" by simp
    from body rd f have r: "Material_remove fs path output_file =
             Inr (fs(out_path output_file path \<mapsto>
                    concat (take k (readlines body) @
                            drop (length (readlines body)) (readlines body))))"
      by (simp add: Material_remove_def splice_def slice_to_def slice_from_def
          validate_file_write_def Let_def t)
    then have r': "Material_remove fs path output_file =
             Inr (fs(out_path output_file path \<mapsto> concat (take k (readlines body))))"
      by simp
    from f(2) t have e: "state_end a = Some (int (length (readlines body)) - 1)" by simp
    show ?thesis
      by (rule exI [of _ body], rule exI [of _ k]) (intro conjI body k f(1) e r r')
  qed
next
  assume rd: "Material_read fs path (Material_init False) = (Some err, a)"
  show "Material_remove fs path output_file = Inl err"
  proof (cases "fs path")
    case None
    with rd have "err = FileNotFound"
      by (simp add: Material_read_def Material_init_def validate_file_read_def)
    with None show ?thesis by (simp add: Material_remove_def)
  next
    case (Some body)
    with rd show ?thesis by (simp add: Material_remove_def)
  qed
qed

theorem splice_equation_witness:
  "Material_read heading_files ''h.inp'' (Material_init True) = (None, heading_result) \<and>
   Material_write [] heading_files None heading_result =
     Inr (heading_files(''h_mod.inp'' \<mapsto>
        ''*Heading\<newline>*Material, name=A\<newline>*Elastic\<newline>1,0.3\<newline>*Step\<newline>'')) \<and>
   Material_write [] heading_files None (add_material ''B'' heading_result) =
     Inr (heading_files(''h_mod.inp'' \<mapsto>
        ''*Heading\<newline>*Material, name=A\<newline>*Elastic\<newline>1,0.3\<newline>*Material, name=B\<newline>*Step\<newline>'')) \<and>
   Material_read heading_files ''h.inp'' (Material_init False) = (None, heading_permissive) \<and>
   Material_remove heading_files ''h.inp'' (Some ''out.inp'') =
     Inr (heading_files(''out.inp'' \<mapsto> ''*Heading\<newline>'')) \<and>
   Material_remove no_material_files ''g.inp'' None = Inl (UnboundLocalError ''begin'')"
proof -
  let ?mB = "add_material ''B'' heading_result"
  \<comment> \<open>write on an instance changed after the read\<close>
  have h1: "materials ?mB \<noteq> [] \<and> state_read ?mB \<and> state_begin ?mB = Some 1 \<and>
      state_end ?mB = Some 3 \<and> heading_files (inp_file ?mB) = Some heading_text"
    by code_simp
  have c1: "out_path None (inp_file ?mB) = ''h_mod.inp''" by code_simp
  have c2: "concat ((if 0 \<le> (1::int) then take (nat 1) (readlines heading_text)
                        else take (length (readlines heading_text) - nat (- 1))
                               (readlines heading_text)) @
                       Material_format ?mB @
                       (if 0 \<le> (3::int) + 1 then drop (nat (3 + 1)) (readlines heading_text)
                        else drop (length (readlines heading_text) - nat (- (3 + 1)))
                               (readlines heading_text)))
     = ''*Heading\<newline>*Material, name=A\<newline>*Elastic\<newline>1,0.3\<newline>*Material, name=B\<newline>*Step\<newline>''"
    by code_simp
  from mp [OF splice_equation [where m = ?mB and b = 1 and e = 3 and fs = heading_files
        and body = heading_text and listdir = "[]" and output_file = None, THEN conjunct1] h1]
  have r1: "Material_write [] heading_files None ?mB =
     Inr (heading_files(''h_mod.inp'' \<mapsto>
        ''*Heading\<newline>*Material, name=A\<newline>*Elastic\<newline>1,0.3\<newline>*Material, name=B\<newline>*Step\<newline>''))"
    unfolding c1 c2 .
  \<comment> \<open>write right after the read\<close>
  have h2: "Material_read heading_files ''h.inp'' (Material_init True) = (None, heading_result)"
    by code_simp
  from mp [OF splice_equation [where fs = heading_files and path = "''h.inp''"
        and ?m0.0 = "Material_init True" and m = heading_result and listdir = "[]"
        and output_file = None, THEN conjunct2, THEN conjunct1] h2]
  obtain body k t where
    o: "heading_files ''h.inp'' = Some body" "state_begin heading_result = Some (int k)"
       "state_end heading_result = Some (int t - 1)" and
    w: "Material_write [] heading_files None heading_result =
           Inr (heading_files(out_path None ''h.inp'' \<mapsto>
                  concat (take k (readlines body) @ Material_format heading_result @
                          drop t (readlines body))))"
    by (elim exE conjE)
  have "heading_files ''h.inp'' = Some heading_text" by code_simp
  with o(1) have body: "body = heading_text" by simp
  have "state_begin heading_result = Some 1" "state_end heading_result = Some 3" by code_simp+
  with o(2,3) have kt: "k = 1" "t = 4" by simp_all
  have c3: "out_path None ''h.inp'' = ''h_mod.inp''" by code_simp
  have c4: "concat (take 1 (readlines heading_text) @ Material_format heading_result @
                          drop 4 (readlines heading_text))
     = ''*Heading\<newline>*Material, name=A\<newline>*Elastic\<newline>1,0.3\<newline>*Step\<newline>''"
    by code_simp
  from w [unfolded body kt c3 c4]
  have r2: "Material_write [] heading_files None heading_result =
     Inr (heading_files(''h_mod.inp'' \<mapsto>
        ''*Heading\<newline>*Material, name=A\<newline>*Elastic\<newline>1,0.3\<newline>*Step\<newline>''))" .
  \<comment> \<open>remove\<close>
  have h3: "Material_read heading_files ''h.inp'' (Material_init False) = (None, heading_permissive)"
    by code_simp
  from mp [OF splice_equation [where fs = heading_files and path = "''h.inp''"
        and a = heading_permissive and output_file = "Some ''out.inp''",
        THEN conjunct2, THEN conjunct2, THEN conjunct1] h3]
  obtain body' k' where
    o': "heading_files ''h.inp'' = Some body'" "state_begin heading_permissive = Some (int k')" and
    rm: "Material_remove heading_files ''h.inp'' (Some ''out.inp'') =
           Inr (heading_files(out_path (Some ''out.inp'') ''h.inp'' \<mapsto>
                  concat (take k' (readlines body'))))"
    by (elim exE conjE)
  from o'(1) \<open>heading_files ''h.inp'' = Some heading_text\<close> have body': "body' = heading_text"
    by simp
  have "state_begin heading_permissive = Some 1" by code_simp
  with o'(2) have k': "k' = 1" by simp
  have c5: "out_path (Some ''out.inp'') ''h.inp'' = ''out.inp''" by code_simp
  have c6: "concat (take 1 (readlines heading_text)) = ''*Heading\<newline>''" by code_simp
  from rm [unfolded body' k' c5 c6]
  have r3: "Material_remove heading_files ''h.inp'' (Some ''out.inp'') =
     Inr (heading_files(''out.inp'' \<mapsto> ''*Heading\<newline>''))" .
  \<comment> \<open>remove when its read fails\<close>
  have h4: "Material_read no_material_files ''g.inp'' (Material_init False) =
     (Some (UnboundLocalError ''begin''),
      \<lparr>inp_file = ''g.inp'', state_begin = None, state_end = None, state_read = False,
       materials = [], is_greedy = False\<rparr>)"
    by code_simp
  from mp [OF splice_equation [where fs = no_material_files and path = "''g.inp''"
        and output_file = None, THEN conjunct2, THEN conjunct2, THEN conjunct2] h4]
  have r4: "Material_remove no_material_files ''g.inp'' None = Inl (UnboundLocalError ''begin'')" .
  from h2 r2 r1 h3 r3 r4 show ?thesis by (intro conjI)
qed

section \<open>Lines of a text and fields of a line\<close>

lemma concat_readlines: "concat (readlines s) = s"
  by (induction s) (auto split: list.splits)

lemma readlines_line:
  "l \<in> set (readlines s) \<Longrightarrow> l \<noteq> [] \<and> newline \<notin> set (butlast l)"
proof (induction s arbitrary: l)
  case Nil
  then show ?case by simp
next
  case (Cons c cs)
  show ?case
  proof (cases "c = newline")
    case True
    with Cons show ?thesis by auto
  next
    case False
    show ?thesis
    proof (cases "readlines cs")
      case Nil
      with False Cons.prems show ?thesis by auto
    next
      case (Cons x xs)
      with False Cons.prems have "l = c # x \<or> l \<in> set xs" by auto
      then show ?thesis
      proof
        assume l: "l = c # x"
        from Cons have "x \<in> set (readlines cs)" by simp
        from Cons.IH [OF this] l False show ?thesis by auto
      next
        assume "l \<in> set xs"
        with Cons have "l \<in> set (readlines cs)" by simp
        then show ?thesis by (rule Cons.IH)
      qed
    qed
  qed
qed

lemma readlines_butlast_terminated:
  "l \<in> set (butlast (readlines s)) \<Longrightarrow> last l = newline"
proof (induction s arbitrary: l)
  case Nil
  then show ?case by simp
next
  case (Cons c cs)
  show ?case
  proof (cases "c = newline")
    case True
    with Cons.prems have "l = [c] \<or> l \<in> set (butlast (readlines cs))"
      by (auto split: if_splits)
    with True Cons.IH show ?thesis by auto
  next
    case False
    show ?thesis
    proof (cases "readlines cs")
      case Nil
      with False Cons.prems show ?thesis by simp
    next
      case c2: (Cons x xs)
      show ?thesis
      proof (cases xs)
        case Nil
        with c2 False Cons.prems show ?thesis by simp
      next
        case c3: (Cons y ys)
        with c2 False Cons.prems have "l = c # x \<or> l \<in> set (butlast xs)" by auto
        then show ?thesis
        proof
          assume l: "l = c # x"
          from c2 c3 have "x \<in> set (butlast (readlines cs))" by simp
          from Cons.IH [OF this] have "last x = newline" .
          moreover from c2 have "x \<in> set (readlines cs)" by simp
          then have "x \<noteq> []" using readlines_line by blast
          ultimately show ?thesis using l by simp
        next
          assume "l \<in> set (butlast xs)"
          with c2 c3 have "l \<in> set (butlast (readlines cs))" by simp
          then show ?thesis by (rule Cons.IH)
        qed
      qed
    qed
  qed
qed

lemma readlines_terminated_append:
  "terminated l \<Longrightarrow> readlines (l @ rest) = l # readlines rest"
proof (induction l)
  case Nil
  then show ?case by (simp add: terminated_def)
next
  case (Cons c cs)
  show ?case
  proof (cases cs)
    case Nil
    with Cons.prems show ?thesis by (simp add: terminated_def)
  next
    case c2: (Cons d ds)
    with Cons.prems have "terminated cs" "c \<noteq> newline"
      by (auto simp: terminated_def)
    with Cons.IH show ?thesis by simp
  qed
qed

lemma readlines_concat_terminated:
  "\<forall>l\<in>set ls. terminated l \<Longrightarrow> readlines (concat ls @ rest) = ls @ readlines rest"
  by (induction ls) (simp_all add: readlines_terminated_append)

lemma tl_readlines: "\<exists>s'. tl (readlines s) = readlines s'"
proof (induction s)
  case Nil
  show ?case by (rule exI [of _ "[]"]) simp
next
  case (Cons c cs)
  show ?case
  proof (cases "c = newline")
    case True
    then show ?thesis by (intro exI [of _ cs]) simp
  next
    case False
    show ?thesis
    proof (cases "readlines cs")
      case Nil
      with False show ?thesis by (intro exI [of _ "[]"]) simp
    next
      case c2: (Cons x xs)
      from Cons.IH obtain s' where "tl (readlines cs) = readlines s'" by blast
      with c2 False show ?thesis by (intro exI [of _ s']) simp
    qed
  qed
qed

lemma drop_readlines: "\<exists>s'. drop n (readlines s) = readlines s'"
proof (induction n arbitrary: s)
  case 0
  show ?case by (rule exI [of _ s]) simp
next
  case (Suc n)
  from tl_readlines obtain s1 where s1: "tl (readlines s) = readlines s1" by blast
  have "drop (Suc n) (readlines s) = drop n (tl (readlines s))"
    by (simp add: drop_Suc)
  with s1 Suc [of s1] show ?case by simp
qed

lemma readlines_concat_drop:
  "readlines (concat (drop n (readlines s))) = drop n (readlines s)"
proof -
  from drop_readlines obtain s' where "drop n (readlines s) = readlines s'" by blast
  then show ?thesis by (simp add: concat_readlines)
qed

lemma take_readlines_terminated:
  assumes "b < length (readlines s)" and "l \<in> set (take b (readlines s))"
  shows "terminated l"
proof -
  from assms have "l \<in> set (butlast (readlines s))"
    by (metis butlast_conv_take in_set_takeD take_take min.absorb1 less_Suc_eq_le Suc_pred' length_greater_0_conv list.size(3) not_less_zero)
  then have "last l = newline" by (rule readlines_butlast_terminated)
  moreover from assms(2) have "l \<in> set (readlines s)" by (rule in_set_takeD)
  then have "l \<noteq> [] \<and> newline \<notin> set (butlast l)" by (rule readlines_line)
  ultimately show ?thesis by (simp add: terminated_def)
qed

lemma split_comma_not_Nil: "split_comma s \<noteq> []"
  by (induction s) (auto split: list.splits)

lemma join_split_comma: "join_comma (split_comma s) = s"
proof (induction s)
  case Nil
  then show ?case by simp
next
  case (Cons c cs)
  obtain f fs where f: "split_comma cs = f # fs"
    using split_comma_not_Nil [of cs] by (cases "split_comma cs") auto
  show ?case
  proof (cases "c = CHR '',''")
    case True
    with Cons f show ?thesis by simp
  next
    case False
    with Cons f show ?thesis by (cases fs) auto
  qed
qed

lemma row_line_split:
  "row_line (split_comma x) = x @ [newline]"
  by (simp add: row_line_def join_split_comma)

section \<open>What the patterns make of the lines the serializer writes\<close>

lemma lower_ascii_star: "lower_ascii c = CHR ''*'' \<Longrightarrow> c = CHR ''*''"
  by (auto simp: lower_ascii_def Let_def split: if_splits
      dest!: arg_cong [where f = "of_char :: char \<Rightarrow> nat"])

lemma lower_ascii_word: "is_word (lower_ascii c) \<Longrightarrow> is_word c"
  by (auto simp: lower_ascii_def is_word_def Let_def split: if_splits)

lemma lower_ascii_newline: "lower_ascii c = newline \<Longrightarrow> c = newline"
  by (auto simp: lower_ascii_def newline_def Let_def split: if_splits
      dest!: arg_cong [where f = "of_char :: char \<Rightarrow> nat"])

lemma lower_ascii_fix:
  "lower_ascii (CHR ''*'') = CHR ''*''" "lower_ascii newline = newline"
  by (simp_all add: lower_ascii_def newline_def)

lemma name_char_not_newline: "\<not> is_name_char newline"
  by (simp add: is_name_char_def is_word_def newline_def)

lemma word_not_newline: "\<not> is_word newline"
  by (simp add: is_word_def newline_def)

lemma match_ignorecase_keyword:
  assumes "match_ignorecase (CHR ''*'' # p # pat) line" and "is_word p"
  shows "generalkeyword line"
proof -
  from assms(1) obtain c0 c1 rest where l: "line = c0 # c1 # rest"
    by (cases line; cases "tl line") (auto simp: match_ignorecase_def)
  with assms(1) have "lower_ascii c0 = CHR ''*''" "lower_ascii c1 = p"
    by (auto simp: match_ignorecase_def)
  with assms(2) have "c0 = CHR ''*''" "is_word c1"
    by (auto dest: lower_ascii_star lower_ascii_word)
  with l show ?thesis by (simp add: generalkeyword_def)
qed

lemma material_keyword: "material l = Some n \<Longrightarrow> generalkeyword l"
proof -
  assume "material l = Some n"
  then have "match_ignorecase ''*material, name='' l"
    by (simp add: material_def split: if_splits)
  then show ?thesis
    by (rule match_ignorecase_keyword) (simp add: is_word_def)
qed

lemma behavior_keyword: "behavior l = Some b \<Longrightarrow> generalkeyword l"
proof -
  assume "behavior l = Some b"
  then have "match_ignorecase ''*plastic'' l \<or> match_ignorecase ''*elastic'' l"
    by (simp add: behavior_def split: if_splits)
  then show ?thesis
  proof
    assume "match_ignorecase ''*plastic'' l"
    then show ?thesis
      by (rule match_ignorecase_keyword) (simp add: is_word_def)
  next
    assume "match_ignorecase ''*elastic'' l"
    then show ?thesis
      by (rule match_ignorecase_keyword) (simp add: is_word_def)
  qed
qed

lemma data_line_rewritten:
  assumes "\<not> generalkeyword l" and "\<not> comment l"
  shows "\<not> generalkeyword (butlast l @ [newline]) \<and> \<not> comment (butlast l @ [newline])"
proof (cases l)
  case Nil
  then show ?thesis
    by (simp add: generalkeyword_def comment_def newline_def)
next
  case c1: (Cons a r1)
  show ?thesis
  proof (cases r1)
    case Nil
    with c1 show ?thesis
      by (simp add: generalkeyword_def comment_def newline_def)
  next
    case c2: (Cons b r2)
    show ?thesis
    proof (cases r2)
      case Nil
      with c1 c2 show ?thesis
        by (auto simp: generalkeyword_def comment_def word_not_newline)
           (simp_all add: newline_def)
    next
      case c3: (Cons c r3)
      show ?thesis
      proof (cases r3)
        case Nil
        with c1 c2 c3 assms show ?thesis
          by (auto simp: generalkeyword_def comment_def word_not_newline)
             (simp_all add: newline_def)
      next
        case c4: (Cons d r4)
        with c1 c2 c3 assms show ?thesis
          by (auto simp: generalkeyword_def comment_def)
      qed
    qed
  qed
qed

lemma lower_material_pattern:
  "map lower_ascii ''*Material, name='' = ''*material, name=''"
  by code_simp

lemma material_reread:
  assumes "material l = Some n"
  shows "material (material_line n) = Some n \<and> terminated (material_line n)"
proof -
  from assms have n: "n = takeWhile is_name_char (drop 16 l)" "n \<noteq> []"
    by (auto simp: material_def Let_def split: if_splits)
  then have nc: "\<forall>c\<in>set n. is_name_char c"
    by (auto dest: set_takeWhileD)
  have m: "match_ignorecase ''*material, name='' (material_line n)"
    using lower_material_pattern by (simp add: match_ignorecase_def material_line_def)
  have "drop 16 (material_line n) = n @ [newline]"
    by (simp add: material_line_def)
  moreover have "takeWhile is_name_char (n @ [newline]) = n"
    using nc by (simp add: takeWhile_append2 name_char_not_newline)
  ultimately have "material (material_line n) = Some n"
    using m n(2) by (simp add: material_def)
  moreover have "newline \<notin> set n"
    using nc name_char_not_newline by blast
  then have "terminated (material_line n)"
    by (simp add: terminated_def material_line_def butlast_append newline_def)
  ultimately show ?thesis by simp
qed

lemma match_ignorecase_Cons:
  "match_ignorecase (p # pat) (c # r) = (lower_ascii c = p \<and> match_ignorecase pat r)"
  by (auto simp: match_ignorecase_def)

lemma behavior_parts:
  assumes "behavior l = Some b"
  shows "length b = 7 \<and> (map lower_ascii b = ''plastic'' \<or> map lower_ascii b = ''elastic'')"
proof -
  from assms have b: "b = take 7 (drop 1 l)" and
    m: "match_ignorecase ''*plastic'' l \<or> match_ignorecase ''*elastic'' l"
    by (auto simp: behavior_def split: if_splits)
  from m obtain c0 r where l: "l = c0 # r"
    by (cases l) (auto simp: match_ignorecase_def)
  from m have "match_ignorecase (CHR ''*'' # ''plastic'') (c0 # r) \<or>
               match_ignorecase (CHR ''*'' # ''elastic'') (c0 # r)"
    unfolding l .
  then have mm: "match_ignorecase ''plastic'' r \<or> match_ignorecase ''elastic'' r"
    unfolding match_ignorecase_Cons by blast
  have l7: "length ''plastic'' = 7" "length ''elastic'' = 7" by simp_all
  from mm have r: "7 \<le> length r"
    "map lower_ascii (take 7 r) = ''plastic'' \<or> map lower_ascii (take 7 r) = ''elastic''"
    unfolding match_ignorecase_def l7 by blast+
  from b l have b2: "b = take 7 r" by simp
  from r(1) have "length (take 7 r) = 7" by simp
  with r(2) show ?thesis unfolding b2 by blast
qed

lemma behavior_reread:
  assumes "behavior l = Some b"
  shows "behavior (behavior_line b) = Some b \<and> material (behavior_line b) = None \<and>
         terminated (behavior_line b)"
proof -
  from behavior_parts [OF assms] have len: "length b = 7" and
    low: "map lower_ascii b = ''plastic'' \<or> map lower_ascii b = ''elastic''"
    by simp_all
  have bl: "behavior_line b = CHR ''*'' # (b @ [newline])"
    by (simp add: behavior_line_def)
  have t7: "take 7 (b @ [newline]) = b" using len by simp
  have l7: "length ''plastic'' = 7" "length ''elastic'' = 7" by simp_all
  have le: "7 \<le> length (b @ [newline])" using len by simp
  from low t7 have "map lower_ascii (take 7 (b @ [newline])) = ''plastic'' \<or>
                    map lower_ascii (take 7 (b @ [newline])) = ''elastic''"
    by simp
  with le have "match_ignorecase ''plastic'' (b @ [newline]) \<or>
                match_ignorecase ''elastic'' (b @ [newline])"
    unfolding match_ignorecase_def l7 by blast
  then have "match_ignorecase (CHR ''*'' # ''plastic'') (CHR ''*'' # (b @ [newline])) \<or>
        match_ignorecase (CHR ''*'' # ''elastic'') (CHR ''*'' # (b @ [newline]))"
    unfolding match_ignorecase_Cons using lower_ascii_fix(1) by blast
  then have m: "match_ignorecase ''*plastic'' (behavior_line b) \<or>
        match_ignorecase ''*elastic'' (behavior_line b)"
    unfolding bl .
  have "take 7 (drop 1 (behavior_line b)) = b"
    unfolding bl using t7 by simp
  with m have 1: "behavior (behavior_line b) = Some b"
    unfolding behavior_def by simp
  have "length (behavior_line b) = 9" unfolding bl using len by simp
  then have "\<not> match_ignorecase ''*material, name='' (behavior_line b)"
    unfolding match_ignorecase_def by simp
  then have 2: "material (behavior_line b) = None"
    unfolding material_def by simp
  have np: "newline \<notin> set ''plastic''" "newline \<notin> set ''elastic''" by code_simp+
  have "newline \<notin> set b"
  proof
    assume "newline \<in> set b"
    then have "lower_ascii newline \<in> set (map lower_ascii b)" by simp
    then have "newline \<in> set (map lower_ascii b)" unfolding lower_ascii_fix .
    with low np show False by metis
  qed
  then have 3: "terminated (behavior_line b)"
    unfolding bl by (simp add: terminated_def butlast_append newline_def)
  from 1 2 3 show ?thesis by simp
qed

lemma data_reread:
  assumes "\<not> generalkeyword l" and "\<not> comment l" and "newline \<notin> set (butlast l)"
  shows "good_row (split_comma (butlast l))"
  using assms data_line_rewritten [OF assms(1,2)]
  by (simp add: good_row_def row_line_split terminated_def)

section \<open>The hierarchy that a read builds\<close>

lemma dict_set_new: "k \<notin> fst ` set d \<Longrightarrow> dict_set k v d = d @ [(k, v)]"
  by (induction d) auto

lemma dict_set_last:
  "k \<notin> fst ` set d \<Longrightarrow> dict_set k v (d @ [(k, v0)]) = d @ [(k, v)]"
  by (induction d) auto

lemma map_of_last: "k \<notin> fst ` set d \<Longrightarrow> map_of (d @ [(k, v)]) k = Some v"
  by (induction d) auto

lemma keys_dict_set_present:
  "k \<in> fst ` set d \<Longrightarrow> map fst (dict_set k v d) = map fst d"
proof (induction d)
  case Nil
  then show ?case by simp
next
  case (Cons a d)
  obtain k' v' where a: "a = (k', v')" by (cases a)
  show ?case
  proof (cases "k' = k")
    case True
    then show ?thesis by (simp add: a)
  next
    case False
    with Cons.prems have "k \<in> fst ` set d" by (auto simp: a)
    then have "map fst (dict_set k v d) = map fst d" by (rule Cons.IH)
    with False show ?thesis by (simp add: a)
  qed
qed

lemma distinct_dict_set: "distinct (map fst d) \<Longrightarrow> distinct (map fst (dict_set k v d))"
proof (cases "k \<in> fst ` set d")
  case True
  assume "distinct (map fst d)"
  with True show ?thesis by (simp add: keys_dict_set_present)
next
  case False
  assume "distinct (map fst d)"
  with False show ?thesis by (simp add: dict_set_new)
qed

lemma set_dict_set: "x \<in> set (dict_set k v d) \<Longrightarrow> x = (k, v) \<or> x \<in> set d"
  by (induction d) (auto split: if_splits)

lemma all_dict_set:
  assumes "\<forall>x\<in>set d. P x" and "P (k, v)"
  shows "\<forall>x\<in>set (dict_set k v d). P x"
proof
  fix x assume "x \<in> set (dict_set k v d)"
  then have "x = (k, v) \<or> x \<in> set d" by (rule set_dict_set)
  with assms show "P x" by blast
qed

lemma wf_material_set:
  assumes "wf_hierarchy h" and "good_material (n, bs)"
  shows "wf_hierarchy (dict_set n bs h)"
proof -
  from assms(1) have d: "distinct (map fst h)" and a: "\<forall>x\<in>set h. good_material x"
    by (simp_all add: wf_hierarchy_def)
  from d have "distinct (map fst (dict_set n bs h))" by (rule distinct_dict_set)
  moreover from a assms(2) have "\<forall>x\<in>set (dict_set n bs h). good_material x"
    by (rule all_dict_set)
  ultimately show ?thesis by (simp add: wf_hierarchy_def)
qed

lemma wf_lookup:
  assumes "wf_hierarchy h" and "map_of h n = Some bs"
  shows "good_material (n, bs)"
  using assms by (auto simp: wf_hierarchy_def dest: map_of_SomeD)

lemma good_material_behavior_set:
  assumes "good_material (n, bs)" and "good_behavior (b, rows)"
  shows "good_material (n, dict_set b rows bs)"
proof -
  from assms(1) have m: "material (material_line n) = Some n" "terminated (material_line n)"
    and d: "distinct (map fst bs)" and a: "\<forall>x\<in>set bs. good_behavior x"
    by (simp_all add: good_material_def)
  from d have "distinct (map fst (dict_set b rows bs))" by (rule distinct_dict_set)
  moreover from a assms(2) have "\<forall>x\<in>set (dict_set b rows bs). good_behavior x"
    by (rule all_dict_set)
  ultimately show ?thesis using m by (simp add: good_material_def)
qed

lemma good_behavior_lookup:
  assumes "good_material (n, bs)" and "map_of bs b = Some rows"
  shows "good_behavior (b, rows)"
  using assms by (auto simp: good_material_def dest: map_of_SomeD)

lemma good_behavior_append:
  assumes "good_behavior (b, rows)" and "good_row r"
  shows "good_behavior (b, rows @ [r])"
  using assms by (simp add: good_behavior_def)

lemma material_step_wf:
  assumes wf: "wf_hierarchy (l_materials s)" and nl: "newline \<notin> set (butlast l)"
    and st: "material_step g i l s = Continue s' \<or> material_step g i l s = Break s'"
  shows "wf_hierarchy (l_materials s')"
proof (cases "material l")
  case (Some n)
  from material_reread [OF Some] have "good_material (n, [])"
    by (simp add: good_material_def)
  with wf have "wf_hierarchy (dict_set n [] (l_materials s))"
    by (rule wf_material_set)
  with Some st show ?thesis
    by (auto simp: material_step_def)
next
  case None
  show ?thesis
  proof (cases "behavior l")
    case (Some b)
    from behavior_reread [OF Some] have gb: "good_behavior (b, [])"
      by (simp add: good_behavior_def)
    from None Some st obtain mn bs where
      mn: "map_of (l_materials s) mn = Some bs" and
      s': "l_materials s' = dict_set mn (dict_set b [] bs) (l_materials s)"
      by (auto simp: material_step_def split: option.splits)
    from wf mn have "good_material (mn, bs)" by (rule wf_lookup)
    then have "good_material (mn, dict_set b [] bs)"
      using gb by (rule good_material_behavior_set)
    with wf show ?thesis unfolding s' by (rule wf_material_set)
  next
    case bNone: None
    show ?thesis
    proof (cases "\<not> generalkeyword l \<and> \<not> comment l \<and> l_in_material s")
      case True
      with nl have gr: "good_row (split_comma (butlast l))"
        by (intro data_reread) simp_all
      from None bNone True st obtain mn bs bn rows where
        mn: "map_of (l_materials s) mn = Some bs" and
        bn: "map_of bs bn = Some rows" and
        s': "l_materials s' =
               dict_set mn (dict_set bn (rows @ [split_comma (butlast l)]) bs) (l_materials s)"
        by (auto simp: material_step_def Let_def split: option.splits)
      from wf mn have gm: "good_material (mn, bs)" by (rule wf_lookup)
      from gm bn have "good_behavior (bn, rows)" by (rule good_behavior_lookup)
      then have "good_behavior (bn, rows @ [split_comma (butlast l)])"
        using gr by (rule good_behavior_append)
      with gm have "good_material (mn, dict_set bn (rows @ [split_comma (butlast l)]) bs)"
        by (rule good_material_behavior_set)
      with wf show ?thesis unfolding s' by (rule wf_material_set)
    next
      case False
      with None bNone st have "l_materials s' = l_materials s"
        by (auto simp: material_step_def Let_def split: if_splits)
      with wf show ?thesis by simp
    qed
  qed
qed

lemma material_loop_wf:
  assumes "wf_hierarchy (l_materials s)" and "\<forall>l\<in>set ls. newline \<notin> set (butlast l)"
    and "material_loop g i ls s = Continue s' \<or> material_loop g i ls s = Break s'"
  shows "wf_hierarchy (l_materials s')"
  using assms
proof (induction ls arbitrary: i s)
  case Nil
  then show ?case by simp
next
  case (Cons l ls)
  show ?case
  proof (cases "material_step g i l s")
    case (Continue s1)
    with Cons.prems(1,2) have "wf_hierarchy (l_materials s1)"
      by (intro material_step_wf [of s l g i s1]) simp_all
    moreover from Cons.prems(3) Continue
    have "material_loop g (i + 1) ls s1 = Continue s' \<or> material_loop g (i + 1) ls s1 = Break s'"
      by simp
    ultimately show ?thesis
      using Cons.prems(2) by (intro Cons.IH [of s1 "i + 1"]) simp_all
  next
    case (Break s1)
    with Cons.prems(3) have "s1 = s'" by simp
    with Break Cons.prems(1,2) show ?thesis
      by (intro material_step_wf [of s l g i s']) simp_all
  next
    case (Raise e)
    with Cons.prems(3) show ?thesis by simp
  qed
qed

section \<open>Reading the serialized hierarchy\<close>

lemma row_not_material:
  assumes "good_row r"
  shows "material (row_line r) = None \<and> behavior (row_line r) = None"
proof -
  from assms have ng: "\<not> generalkeyword (row_line r)" by (simp add: good_row_def)
  have "material (row_line r) = None"
  proof (cases "material (row_line r)")
    case (Some n)
    then have "generalkeyword (row_line r)" by (rule material_keyword)
    with ng show ?thesis by simp
  qed simp
  moreover have "behavior (row_line r) = None"
  proof (cases "behavior (row_line r)")
    case (Some n)
    then have "generalkeyword (row_line r)" by (rule behavior_keyword)
    with ng show ?thesis by simp
  qed simp
  ultimately show ?thesis by simp
qed

lemma material_step_param:
  assumes "material l = None" and "behavior l = None"
    and "\<not> generalkeyword l" and "\<not> comment l" and "l_in_material s"
    and "l_material_name s = Some n" and "map_of (l_materials s) n = Some bs"
    and "l_behavior_name s = Some b" and "map_of bs b = Some rows"
  shows "material_step g i l s =
           Continue (s\<lparr>l_materials :=
             dict_set n (dict_set b (rows @ [split_comma (butlast l)]) bs) (l_materials s)\<rparr>)"
  using assms by (simp add: material_step_def)

lemma material_step_behavior:
  assumes "material l = None" and "behavior l = Some b"
    and "l_material_name s = Some n" and "map_of (l_materials s) n = Some bs"
  shows "material_step g i l s =
           Continue (s\<lparr>l_behavior_name := Some b,
             l_materials := dict_set n (dict_set b [] bs) (l_materials s)\<rparr>)"
  using assms by (simp add: material_step_def)

lemma reread_row_step:
  assumes im: "l_in_material s" and mn: "l_material_name s = Some n"
    and bn: "l_behavior_name s = Some b"
    and ms: "l_materials s = H @ [(n, B @ [(b, R)])]"
    and nH: "n \<notin> fst ` set H" and bB: "b \<notin> fst ` set B" and gr: "good_row r"
  shows "material_step g i (row_line r) s =
           Continue (s\<lparr>l_materials := H @ [(n, B @ [(b, R @ [r])])]\<rparr>)"
proof -
  from row_not_material [OF gr] have m: "material (row_line r) = None"
    and bh: "behavior (row_line r) = None" by simp_all
  from gr have k: "\<not> generalkeyword (row_line r)" "\<not> comment (row_line r)"
    and sp: "split_comma (butlast (row_line r)) = r"
    by (simp_all add: good_row_def)
  have l1: "map_of (l_materials s) n = Some (B @ [(b, R)])"
    unfolding ms using nH by (rule map_of_last)
  have l2: "map_of (B @ [(b, R)]) b = Some R"
    using bB by (rule map_of_last)
  have d1: "dict_set b (R @ [r]) (B @ [(b, R)]) = B @ [(b, R @ [r])]"
    using bB by (rule dict_set_last)
  have d2: "dict_set n (B @ [(b, R @ [r])]) (l_materials s) = H @ [(n, B @ [(b, R @ [r])])]"
    unfolding ms using nH by (rule dict_set_last)
  from material_step_param [OF m bh k im mn l1 bn l2, of g i]
  show ?thesis by (simp only: sp d1 d2)
qed

lemma reread_rows:
  assumes "l_in_material s" and "l_material_name s = Some n"
    and "l_behavior_name s = Some b"
    and "l_materials s = H @ [(n, B @ [(b, R)])]"
    and "n \<notin> fst ` set H" and "b \<notin> fst ` set B" and "\<forall>r\<in>set R2. good_row r"
  shows "material_loop g i (map row_line R2) s =
           Continue (s\<lparr>l_materials := H @ [(n, B @ [(b, R @ R2)])]\<rparr>)"
  using assms
proof (induction R2 arbitrary: i s R)
  case Nil
  then show ?case by simp
next
  case (Cons r R2)
  let ?s1 = "s\<lparr>l_materials := H @ [(n, B @ [(b, R @ [r])])]\<rparr>"
  from Cons.prems have st: "material_step g i (row_line r) s = Continue ?s1"
    by (intro reread_row_step) simp_all
  have "material_loop g (i + 1) (map row_line R2) ?s1 =
          Continue (?s1\<lparr>l_materials := H @ [(n, B @ [(b, (R @ [r]) @ R2)])]\<rparr>)"
    using Cons.prems by (intro Cons.IH) simp_all
  with st show ?case by simp
qed

lemma reread_behavior_step:
  assumes mn: "l_material_name s = Some n"
    and ms: "l_materials s = H @ [(n, B)]"
    and nH: "n \<notin> fst ` set H" and bB: "b \<notin> fst ` set B"
    and gb: "behavior (behavior_line b) = Some b" "material (behavior_line b) = None"
  shows "material_step g i (behavior_line b) s =
           Continue (s\<lparr>l_behavior_name := Some b, l_materials := H @ [(n, B @ [(b, [])])]\<rparr>)"
proof -
  have l1: "map_of (l_materials s) n = Some B"
    unfolding ms using nH by (rule map_of_last)
  have d1: "dict_set b [] B = B @ [(b, [])]"
    using bB by (rule dict_set_new)
  have d2: "dict_set n (B @ [(b, [])]) (l_materials s) = H @ [(n, B @ [(b, [])])]"
    unfolding ms using nH by (rule dict_set_last)
  from material_step_behavior [OF gb(2) gb(1) mn l1, of g i]
  show ?thesis by (simp only: d1 d2)
qed

lemma reread_behaviors:
  assumes "l_in_material s" and "l_material_name s = Some n"
    and "l_materials s = H @ [(n, B)]" and "n \<notin> fst ` set H"
    and "distinct (map fst (B @ B2))" and "\<forall>x\<in>set B2. good_behavior x"
  shows "\<exists>s'. material_loop g i (concat (map behavior_block B2)) s = Continue s' \<and>
           l_in_material s' \<and> l_material_name s' = Some n \<and>
           l_materials s' = H @ [(n, B @ B2)] \<and>
           l_begin s' = l_begin s \<and> l_end s' = l_end s"
  using assms
proof (induction B2 arbitrary: i s B)
  case Nil
  then show ?case by simp
next
  case (Cons x B2)
  obtain b R where x: "x = (b, R)" by (cases x)
  from Cons.prems(6) have gb: "behavior (behavior_line b) = Some b"
    "material (behavior_line b) = None" and gR: "\<forall>r\<in>set R. good_row r"
    by (simp_all add: x good_behavior_def)
  from Cons.prems(5) have bB: "b \<notin> fst ` set B" by (auto simp: x)
  let ?s1 = "s\<lparr>l_behavior_name := Some b, l_materials := H @ [(n, B @ [(b, [])])]\<rparr>"
  let ?s2 = "s\<lparr>l_behavior_name := Some b, l_materials := H @ [(n, B @ [(b, R)])]\<rparr>"
  have st: "material_step g i (behavior_line b) s = Continue ?s1"
    using Cons.prems(2,3,4) bB gb by (rule reread_behavior_step)
  have "material_loop g (i + 1) (map row_line R) ?s1 =
          Continue (?s1\<lparr>l_materials := H @ [(n, B @ [(b, [] @ R)])]\<rparr>)"
    using Cons.prems(1,2,4) bB gR by (intro reread_rows) simp_all
  then have rows: "material_loop g (i + 1) (map row_line R) ?s1 = Continue ?s2"
    by simp
  have "\<exists>s'. material_loop g (i + 1 + int (length (map row_line R)))
                 (concat (map behavior_block B2)) ?s2 = Continue s' \<and>
           l_in_material s' \<and> l_material_name s' = Some n \<and>
           l_materials s' = H @ [(n, (B @ [(b, R)]) @ B2)] \<and>
           l_begin s' = l_begin ?s2 \<and> l_end s' = l_end ?s2"
    using Cons.prems by (intro Cons.IH) (simp_all add: x)
  then obtain s' where s': "material_loop g (i + 1 + int (length (map row_line R)))
                 (concat (map behavior_block B2)) ?s2 = Continue s'"
    "l_in_material s'" "l_material_name s' = Some n"
    "l_materials s' = H @ [(n, B @ (b, R) # B2)]"
    "l_begin s' = l_begin s" "l_end s' = l_end s"
    by auto
  have "material_loop g i (concat (map behavior_block (x # B2))) s =
          material_loop g (i + 1) (map row_line R @ concat (map behavior_block B2)) ?s1"
    using st by (simp add: x behavior_block_def)
  also have "\<dots> = material_loop g (i + 1 + int (length (map row_line R)))
                 (concat (map behavior_block B2)) ?s2"
    by (simp only: material_loop_append rows outcome.case)
  finally have "material_loop g i (concat (map behavior_block (x # B2))) s = Continue s'"
    using s'(1) by simp
  with s' show ?case by (auto simp: x)
qed

lemma reread_material_block:
  assumes ms: "l_materials s = H" and nH: "n \<notin> fst ` set H" and gm: "good_material (n, B)"
  shows "\<exists>s'. material_loop g i (material_block (n, B)) s = Continue s' \<and>
           l_in_material s' \<and> l_materials s' = H @ [(n, B)] \<and>
           l_begin s' = (if l_in_material s then l_begin s else Some i) \<and>
           l_end s' = l_end s"
proof -
  from gm have m: "material (material_line n) = Some n"
    and d: "distinct (map fst B)" and gb: "\<forall>x\<in>set B. good_behavior x"
    by (simp_all add: good_material_def)
  let ?s1 = "(if l_in_material s then s
                 else s\<lparr>l_in_material := True, l_begin := Some i\<rparr>)
                \<lparr>l_material_name := Some n, l_materials := H @ [(n, [])]\<rparr>"
  have "dict_set n [] (l_materials s) = H @ [(n, [])]"
    unfolding ms using nH by (rule dict_set_new)
  then have st: "material_step g i (material_line n) s = Continue ?s1"
    by (simp add: material_step_def m)
  have "\<exists>s'. material_loop g (i + 1) (concat (map behavior_block B)) ?s1 = Continue s' \<and>
           l_in_material s' \<and> l_material_name s' = Some n \<and>
           l_materials s' = H @ [(n, [] @ B)] \<and>
           l_begin s' = l_begin ?s1 \<and> l_end s' = l_end ?s1"
    using nH d gb by (intro reread_behaviors) simp_all
  then obtain s' where s': "material_loop g (i + 1) (concat (map behavior_block B)) ?s1 = Continue s'"
    "l_in_material s'" "l_materials s' = H @ [(n, B)]"
    "l_begin s' = l_begin ?s1" "l_end s' = l_end ?s1"
    by auto
  have "material_loop g i (material_block (n, B)) s = Continue s'"
    using st s'(1) by (simp add: material_block_def)
  moreover have "l_begin ?s1 = (if l_in_material s then l_begin s else Some i)" by simp
  moreover have "l_end ?s1 = l_end s" by simp
  ultimately show ?thesis using s' by auto
qed

lemma reread_materials:
  assumes "l_materials s = H" and "wf_hierarchy (H @ H2)"
  shows "\<exists>s'. material_loop g i (concat (map material_block H2)) s = Continue s' \<and>
           l_materials s' = H @ H2 \<and> l_end s' = l_end s \<and>
           l_in_material s' = (l_in_material s \<or> H2 \<noteq> []) \<and>
           l_begin s' = (if l_in_material s \<or> H2 = [] then l_begin s else Some i)"
  using assms
proof (induction H2 arbitrary: i s H)
  case Nil
  then show ?case by simp
next
  case (Cons x H2)
  obtain n B where x: "x = (n, B)" by (cases x)
  from Cons.prems(2) have nH: "n \<notin> fst ` set H" and gm: "good_material (n, B)"
    and wf: "wf_hierarchy ((H @ [(n, B)]) @ H2)"
    by (auto simp: x wf_hierarchy_def)
  from reread_material_block [OF Cons.prems(1) nH gm, of g i]
  obtain s1 where s1: "material_loop g i (material_block (n, B)) s = Continue s1"
    "l_in_material s1" "l_materials s1 = H @ [(n, B)]"
    "l_begin s1 = (if l_in_material s then l_begin s else Some i)"
    "l_end s1 = l_end s"
    by auto
  from Cons.IH [OF s1(3) wf, of "i + int (length (material_block (n, B)))"]
  obtain s' where s': "material_loop g (i + int (length (material_block (n, B))))
                          (concat (map material_block H2)) s1 = Continue s'"
    "l_materials s' = (H @ [(n, B)]) @ H2" "l_end s' = l_end s1"
    "l_in_material s' = (l_in_material s1 \<or> H2 \<noteq> [])"
    "l_begin s' = (if l_in_material s1 \<or> H2 = [] then l_begin s1 else Some (i + int (length (material_block (n, B)))))"
    by auto
  have "concat (map material_block (x # H2)) =
          material_block (n, B) @ concat (map material_block H2)"
    by (simp add: x)
  then have "material_loop g i (concat (map material_block (x # H2))) s = Continue s'"
    by (simp only: material_loop_append s1(1) s'(1) outcome.case)
  with s1 s' show ?case by (auto simp: x)
qed

lemma format_terminated:
  assumes "wf_hierarchy H" and "materials m = H"
  shows "\<forall>l\<in>set (Material_format m). terminated l"
proof
  fix l assume "l \<in> set (Material_format m)"
  with assms(2) obtain x where x: "x \<in> set H" "l \<in> set (material_block x)"
    by (auto simp: Material_format_blocks)
  obtain n B where nB: "x = (n, B)" by (cases x)
  from assms x(1) have gm: "good_material (n, B)" by (auto simp: wf_hierarchy_def nB)
  from x(2) have "l = material_line n \<or> (\<exists>y\<in>set B. l \<in> set (behavior_block y))"
    by (auto simp: nB material_block_def)
  then show "terminated l"
  proof
    assume "l = material_line n"
    with gm show ?thesis by (simp add: good_material_def)
  next
    assume "\<exists>y\<in>set B. l \<in> set (behavior_block y)"
    then obtain y where y: "y \<in> set B" "l \<in> set (behavior_block y)" by blast
    obtain b R where bR: "y = (b, R)" by (cases y)
    from gm y(1) have gb: "good_behavior (b, R)" by (auto simp: good_material_def bR)
    from y(2) have "l = behavior_line b \<or> (\<exists>r\<in>set R. l = row_line r)"
      by (auto simp: bR behavior_block_def)
    then show ?thesis
    proof
      assume "l = behavior_line b"
      with gb show ?thesis by (simp add: good_behavior_def)
    next
      assume "\<exists>r\<in>set R. l = row_line r"
      then obtain r where "r \<in> set R" "l = row_line r" by blast
      with gb show ?thesis by (auto simp: good_behavior_def good_row_def)
    qed
  qed
qed

lemma readlines_spliced:
  assumes k: "k < length (readlines body)" and F: "\<forall>l\<in>set F. terminated l"
  shows "readlines (concat (take k (readlines body) @ F @ drop t (readlines body))) =
           take k (readlines body) @ F @ drop t (readlines body)"
proof -
  have "\<forall>l\<in>set (take k (readlines body) @ F). terminated l"
    using take_readlines_terminated [OF k] F by auto
  then have "readlines (concat (take k (readlines body) @ F) @ concat (drop t (readlines body))) =
          (take k (readlines body) @ F) @ readlines (concat (drop t (readlines body)))"
    by (rule readlines_concat_terminated)
  then show ?thesis by (simp add: readlines_concat_drop)
qed

lemma Material_read_from_loop:
  assumes "fs file = Some body" and "body \<noteq> []" and "\<not> state_read m"
    and "material_loop (is_greedy m) 0 (readlines body) locals_init = Continue s \<or>
         material_loop (is_greedy m) 0 (readlines body) locals_init = Break s"
  shows "Material_read fs file m = material_store file (length (readlines body)) s m"
  using assms
  by (auto simp: Material_read_def validate_file_read_def Let_def)

lemma material_store_value:
  assumes "l_begin s = Some b"
    and "l_end s = Some e \<or> l_end s = None \<and> 0 < n \<and> e = int n - 1"
  shows "material_store file n s m =
           (None, m\<lparr>inp_file := file, materials := l_materials s, state_begin := Some b,
                     state_end := Some e, state_read := True\<rparr>)"
  using assms
  by (auto simp: material_store_def Let_def)

lemma material_block_not_Nil: "material_block x \<noteq> []"
  by (cases x) (simp add: material_block_def)

lemma format_not_Nil: "materials m \<noteq> [] \<Longrightarrow> Material_format m \<noteq> []"
  by (cases "materials m") (simp_all add: Material_format_blocks material_block_not_Nil)

text \<open>The scan of a spliced file: the lines before the block, the serialized block, the rest.\<close>

lemma rescan:
  assumes pre: "material_loop g 0 (take k old) locals_init = Continue locals_init"
    and k: "k \<le> length old" and wf: "wf_hierarchy H" and ne: "H \<noteq> []"
    and rest: "rest = [] \<or>
               (\<exists>i s1 s. material_step g i (hd rest) s1 = Break s)"
  shows "\<exists>s3. (material_loop g 0 (take k old @ concat (map material_block H) @ rest) locals_init
                  = Continue s3 \<and> rest = [] \<and> l_end s3 = None \<or>
               material_loop g 0 (take k old @ concat (map material_block H) @ rest) locals_init
                  = Break s3 \<and>
               l_end s3 = Some (int k + int (length (concat (map material_block H))) - 1)) \<and>
              l_begin s3 = Some (int k) \<and> l_materials s3 = H"
proof -
  let ?F = "concat (map material_block H)"
  have "\<exists>s'. material_loop g (int k) (concat (map material_block H)) locals_init = Continue s' \<and>
           l_materials s' = [] @ H \<and> l_end s' = l_end locals_init \<and>
           l_in_material s' = (l_in_material locals_init \<or> H \<noteq> []) \<and>
           l_begin s' = (if l_in_material locals_init \<or> H = [] then l_begin locals_init
                         else Some (int k))"
    using wf by (intro reread_materials) (simp_all add: locals_init_def)
  then obtain s2 where s2: "material_loop g (int k) ?F locals_init = Continue s2"
    "l_materials s2 = H" "l_end s2 = None" "l_in_material s2" "l_begin s2 = Some (int k)"
    using ne by (auto simp: locals_init_def)
  from k have len: "int (length (take k old)) = int k" by simp
  have two: "material_loop g 0 (take k old @ ?F) locals_init = Continue s2"
    using pre s2(1) k by (simp add: material_loop_append min_def)
  have len2: "int (length (take k old @ ?F)) = int k + int (length ?F)"
    using k by simp
  from rest show ?thesis
  proof
    assume r: "rest = []"
    with two s2 show ?thesis by auto
  next
    assume "\<exists>i s1 s. material_step g i (hd rest) s1 = Break s"
    then obtain i s1 s where st: "material_step g i (hd rest) s1 = Break s" by blast
    let ?j = "int k + int (length ?F)"
    from material_step_Break_any [OF st s2(4), of ?j]
    have b: "material_step g ?j (hd rest) s2 = Break (s2\<lparr>l_end := Some (?j - 1)\<rparr>)" .
    show ?thesis
    proof (cases rest)
      case Nil
      with two s2 show ?thesis by auto
    next
      case (Cons x xs)
      with b have b': "material_step g ?j x s2 = Break (s2\<lparr>l_end := Some (?j - 1)\<rparr>)"
        by simp
      have "material_loop g 0 ((take k old @ ?F) @ x # xs) locals_init =
              Break (s2\<lparr>l_end := Some (?j - 1)\<rparr>)"
        by (simp only: material_loop_append [of g 0 "take k old @ ?F"] two outcome.case len2)
           (simp add: b')
      then have "material_loop g 0 (take k old @ ?F @ rest) locals_init =
              Break (s2\<lparr>l_end := Some (?j - 1)\<rparr>)"
        by (simp add: Cons)
      with s2 show ?thesis by auto
    qed
  qed
qed

section \<open>Reading, writing and reading again\<close>

text \<open>
  Let a read of a file succeed, in either mode, and let \<^verbatim>\<open>write\<close> follow with the instance
  as the read left it. The recorded block is the lines \<open>k, \<dots>, t - 1\<close> of the file.
  \<^verbatim>\<open>write\<close> succeeds, and the lines of the text it stores are the first \<open>k\<close> lines of the
  file, the serialized hierarchy, and the lines of the file from \<open>t\<close> on: the lines before
  and after the block are those of the original, byte for byte. A fresh instance of the
  same mode reads the file written without an exception; it finds the block at the lines
  of the serialized hierarchy, from \<open>k\<close> on, and the hierarchy it reads is the one the
  first read built.
\<close>

lemma round_trip_general:
  assumes rd: "Material_read fs path m0 = (None, m)"
  shows "\<exists>body k t. fs path = Some body \<and> state_begin m = Some (int k) \<and>
     state_end m = Some (int t - 1) \<and> k < t \<and> t \<le> length (readlines body) \<and>
     Material_write listdir fs output_file m =
       Inr (fs(out_path output_file path \<mapsto>
              concat (take k (readlines body) @ Material_format m @ drop t (readlines body)))) \<and>
     readlines (concat (take k (readlines body) @ Material_format m @ drop t (readlines body))) =
       take k (readlines body) @ Material_format m @ drop t (readlines body) \<and>
     take k (readlines (concat (take k (readlines body) @ Material_format m @
                                drop t (readlines body)))) = take k (readlines body) \<and>
     drop (k + length (Material_format m))
       (readlines (concat (take k (readlines body) @ Material_format m @
                           drop t (readlines body)))) = drop t (readlines body) \<and>
     Material_read
       (fs(out_path output_file path \<mapsto>
             concat (take k (readlines body) @ Material_format m @ drop t (readlines body))))
       (out_path output_file path) (Material_init (is_greedy m)) =
         (None, \<lparr>inp_file = out_path output_file path, state_begin = Some (int k),
                  state_end = Some (int k + int (length (Material_format m)) - 1),
                  state_read = True, materials = materials m, is_greedy = is_greedy m\<rparr>)"
  using Material_read_range [OF rd]
proof (elim exE conjE)
  fix body s k t
  let ?g = "is_greedy m0"
  let ?old = "readlines body"
  let ?F = "Material_format m"
  let ?new = "take k ?old @ ?F @ drop t ?old"
  let ?out = "out_path output_file path"
  let ?E = "int k + int (length ?F) - 1"
  assume body: "fs path = Some body"
    and m: "m = m0\<lparr>inp_file := path, materials := l_materials s,
                state_begin := Some (int k), state_end := Some (int t - 1),
                state_read := True\<rparr>"
    and ne: "l_materials s \<noteq> []" and kt: "k < t" "t \<le> length ?old"
    and loop: "material_loop ?g 0 ?old locals_init = Continue s \<or>
               material_loop ?g 0 ?old locals_init = Break s"
    and pre: "material_loop ?g 0 (take k ?old) locals_init = Continue locals_init"
    and cases: "material_loop ?g 0 ?old locals_init = Continue s \<and> t = length ?old \<or>
            t < length ?old \<and>
            (\<exists>s1. material_loop ?g 0 (take t ?old) locals_init = Continue s1 \<and>
                  l_in_material s1 \<and> material_step ?g (int t) (?old ! t) s1 = Break s)"
  from m have f: "inp_file m = path" "state_read m" "state_begin m = Some (int k)"
      "state_end m = Some (int t - 1)" "materials m = l_materials s" "is_greedy m = ?g"
    by simp_all
  from ne f(5) have ne': "materials m \<noteq> []" by simp
  from body f(1) have body': "fs (inp_file m) = Some body" by simp
  \<comment> \<open>what write stores\<close>
  from write_splice [where fs = fs and m = m and listdir = listdir
        and output_file = output_file, OF ne' f(2) f(3) f(4) body']
  have w: "Material_write listdir fs output_file m = Inr (fs(?out \<mapsto> concat ?new))"
    by (simp add: f(1))
  \<comment> \<open>the hierarchy read is one that the serializer writes back readably\<close>
  have "wf_hierarchy (l_materials locals_init)"
    by (simp add: locals_init_def wf_hierarchy_def)
  moreover have "\<forall>l\<in>set ?old. newline \<notin> set (butlast l)"
    using readlines_line by blast
  ultimately have wf: "wf_hierarchy (l_materials s)"
    using loop by (rule material_loop_wf)
  from wf f(5) have tF: "\<forall>l\<in>set ?F. terminated l"
    by (intro format_terminated [of "l_materials s"]) simp_all
  have F: "?F = concat (map material_block (l_materials s))"
    by (simp add: Material_format_blocks f(5))
  from kt have k: "k < length ?old" "k \<le> length ?old" by simp_all
  \<comment> \<open>the lines of the file written\<close>
  from k(1) tF have rl: "readlines (concat ?new) = ?new"
    by (rule readlines_spliced)
  from format_not_Nil [OF ne'] have newne: "?new \<noteq> []" by simp
  have cne: "concat ?new \<noteq> []"
  proof
    assume a: "concat ?new = []"
    have "?new = readlines (concat ?new)" by (simp only: rl)
    also have "\<dots> = readlines []" by (simp only: a)
    also have "\<dots> = []" by simp
    finally have "?new = []" .
    with newne show False by (rule notE)
  qed
  \<comment> \<open>the scan of the file written\<close>
  have rest: "drop t ?old = [] \<or> (\<exists>i s1 s. material_step ?g i (hd (drop t ?old)) s1 = Break s)"
    using cases
  proof
    assume "material_loop ?g 0 ?old locals_init = Continue s \<and> t = length ?old"
    then show ?thesis by simp
  next
    assume a: "t < length ?old \<and>
            (\<exists>s1. material_loop ?g 0 (take t ?old) locals_init = Continue s1 \<and>
                  l_in_material s1 \<and> material_step ?g (int t) (?old ! t) s1 = Break s)"
    then have "hd (drop t ?old) = ?old ! t" by (simp add: hd_drop_conv_nth)
    with a show ?thesis by auto
  qed
  from rescan [OF pre k(2) wf ne rest, folded F]
  obtain s3 where
    sc: "material_loop ?g 0 ?new locals_init = Continue s3 \<and> drop t ?old = [] \<and> l_end s3 = None \<or>
         material_loop ?g 0 ?new locals_init = Break s3 \<and> l_end s3 = Some ?E" and
    b3: "l_begin s3 = Some (int k)" and m3: "l_materials s3 = l_materials s"
    by (elim exE conjE)
  from sc have loop3: "material_loop ?g 0 ?new locals_init = Continue s3 \<or>
                       material_loop ?g 0 ?new locals_init = Break s3"
    by blast
  from sc k(2) have e3: "l_end s3 = Some ?E \<or>
      l_end s3 = None \<and> 0 < length ?new \<and> ?E = int (length ?new) - 1"
    using newne by auto
  \<comment> \<open>reading the file written\<close>
  let ?fs' = "fs(?out \<mapsto> concat ?new)"
  have g0: "is_greedy (Material_init ?g) = ?g" "\<not> state_read (Material_init ?g)"
    by (simp_all add: Material_init_def)
  have "?fs' ?out = Some (concat ?new)" by simp
  moreover note cne g0(2)
  moreover from loop3 have
    "material_loop (is_greedy (Material_init ?g)) 0 (readlines (concat ?new)) locals_init
       = Continue s3 \<or>
     material_loop (is_greedy (Material_init ?g)) 0 (readlines (concat ?new)) locals_init
       = Break s3"
    by (simp only: rl g0(1))
  ultimately have "Material_read ?fs' ?out (Material_init ?g) =
      material_store ?out (length (readlines (concat ?new))) s3 (Material_init ?g)"
    by (rule Material_read_from_loop)
  also have "\<dots> = material_store ?out (length ?new) s3 (Material_init ?g)"
    by (simp only: rl)
  also from b3 e3 have "\<dots> =
      (None, (Material_init ?g)\<lparr>inp_file := ?out, materials := l_materials s3,
                state_begin := Some (int k), state_end := Some ?E, state_read := True\<rparr>)"
    by (rule material_store_value)
  also have "\<dots> = (None, \<lparr>inp_file = ?out, state_begin = Some (int k),
                  state_end = Some ?E, state_read = True, materials = materials m,
                  is_greedy = is_greedy m\<rparr>)"
    by (simp add: Material_init_def m3 f(5) f(6))
  finally have rr: "Material_read ?fs' ?out (Material_init (is_greedy m)) =
      (None, \<lparr>inp_file = ?out, state_begin = Some (int k),
                  state_end = Some ?E, state_read = True, materials = materials m,
                  is_greedy = is_greedy m\<rparr>)"
    by (simp only: f(6))
  have lk: "length (take k ?old) = k" using k(2) by simp
  have tk: "take (length xs) (xs @ ys) = xs" for xs ys :: "string list" by simp
  have "take k ?new = take (length (take k ?old)) (take k ?old @ (?F @ drop t ?old))"
    by (simp only: lk)
  also have "\<dots> = take k ?old" by (rule tk)
  finally have before: "take k (readlines (concat ?new)) = take k ?old"
    by (simp only: rl)
  have dl: "drop (length xs) (xs @ ys) = ys" for xs ys :: "string list" by simp
  have "drop (k + length ?F) ?new =
          drop (length (take k ?old @ ?F)) ((take k ?old @ ?F) @ drop t ?old)"
    by (simp only: length_append lk append_assoc)
  also have "\<dots> = drop t ?old" by (rule dl)
  finally have after: "drop (k + length ?F) (readlines (concat ?new)) = drop t ?old"
    by (simp only: rl)
  show ?thesis
    by (rule exI [of _ body], rule exI [of _ k], rule exI [of _ t])
       (intro conjI body f(3) f(4) kt w rl before after rr)
qed

text \<open>
  On a file whose block is not spelled as the serializer spells it, the text written
  differs from the original and is read back to the same hierarchy.
\<close>

lemma round_trip_example:
  "Material_read rt_files ''r.inp'' (Material_init True) = (None, rt_result) \<and>
   Material_write [] rt_files None rt_result = Inr (rt_files(''r_mod.inp'' \<mapsto> rt_written)) \<and>
   rt_written \<noteq> rt_text \<and>
   readlines rt_written =
     take 1 (readlines rt_text) @ Material_format rt_result @ drop 4 (readlines rt_text) \<and>
   Material_read (rt_files(''r_mod.inp'' \<mapsto> rt_written)) ''r_mod.inp'' (Material_init True) =
     (None, rt_result\<lparr>inp_file := ''r_mod.inp''\<rparr>)"
proof -
  have h: "Material_read rt_files ''r.inp'' (Material_init True) = (None, rt_result)"
    by code_simp
  from round_trip_general [OF h, of "[]" None]
  obtain body k t where
    o: "rt_files ''r.inp'' = Some body" "state_begin rt_result = Some (int k)"
       "state_end rt_result = Some (int t - 1)" and
    w: "Material_write [] rt_files None rt_result =
       Inr (rt_files(out_path None ''r.inp'' \<mapsto>
              concat (take k (readlines body) @ Material_format rt_result @
                      drop t (readlines body))))" and
    rl: "readlines (concat (take k (readlines body) @ Material_format rt_result @
                            drop t (readlines body))) =
       take k (readlines body) @ Material_format rt_result @ drop t (readlines body)" and
    rr: "Material_read
       (rt_files(out_path None ''r.inp'' \<mapsto>
             concat (take k (readlines body) @ Material_format rt_result @
                     drop t (readlines body))))
       (out_path None ''r.inp'') (Material_init (is_greedy rt_result)) =
         (None, \<lparr>inp_file = out_path None ''r.inp'', state_begin = Some (int k),
                  state_end = Some (int k + int (length (Material_format rt_result)) - 1),
                  state_read = True, materials = materials rt_result,
                  is_greedy = is_greedy rt_result\<rparr>)"
    by (elim exE conjE)
  have "rt_files ''r.inp'' = Some rt_text" by code_simp
  with o(1) have body: "body = rt_text" by simp
  have "state_begin rt_result = Some 1" "state_end rt_result = Some 3" by code_simp+
  with o(2,3) have kt: "k = 1" "t = 4" by simp_all
  have c1: "out_path None ''r.inp'' = ''r_mod.inp''" by code_simp
  have c2: "concat (take 1 (readlines rt_text) @ Material_format rt_result @
                    drop 4 (readlines rt_text)) = rt_written"
    by code_simp
  have c3: "is_greedy rt_result = True" by code_simp
  have c4: "\<lparr>inp_file = ''r_mod.inp'', state_begin = Some (int 1),
                  state_end = Some (int 1 + int (length (Material_format rt_result)) - 1),
                  state_read = True, materials = materials rt_result,
                  is_greedy = True\<rparr> = rt_result\<lparr>inp_file := ''r_mod.inp''\<rparr>"
    by code_simp
  have d: "rt_written \<noteq> rt_text" by code_simp
  from w [unfolded body kt c1 c2]
  have r1: "Material_write [] rt_files None rt_result =
      Inr (rt_files(''r_mod.inp'' \<mapsto> rt_written))" .
  from rl [unfolded body kt c2]
  have r2: "readlines rt_written =
     take 1 (readlines rt_text) @ Material_format rt_result @ drop 4 (readlines rt_text)" .
  from rr [unfolded body kt c1 c2 c3 c4]
  have r3: "Material_read (rt_files(''r_mod.inp'' \<mapsto> rt_written)) ''r_mod.inp''
      (Material_init True) = (None, rt_result\<lparr>inp_file := ''r_mod.inp''\<rparr>)" .
  from h r1 d r2 r3 show ?thesis by (intro conjI)
qed

text \<open>
  Claim C4 at the input where the code departs from it. The last line of the file is the
  data line \<^verbatim>\<open>1,0.3\<close>, with no newline after it. \<^verbatim>\<open>read\<close> drops the last character of every
  data line, here the digit 3, so the row it stores is \<^verbatim>\<open>1\<close>, \<^verbatim>\<open>0.\<close>, where the fields of
  the line are \<^verbatim>\<open>1\<close>, \<^verbatim>\<open>0.3\<close>; \<^verbatim>\<open>write\<close> then stores the block with the data line
  \<^verbatim>\<open>1,0.\<close>: the row of the block written has not the field values of the original block.
\<close>

theorem round_trip_drops_last_character:
  "readlines unterminated_text = [''*Material, name=A\<newline>'', ''*Elastic\<newline>'', ''1,0.3''] \<and>
   split_comma ''1,0.3'' = [''1'', ''0.3''] \<and>
   Material_read unterminated_files ''u.inp'' (Material_init True) = (None, unterminated_result) \<and>
   materials unterminated_result = [(''A'', [(''Elastic'', [[''1'', ''0.'']])])] \<and>
   Material_write [] unterminated_files None unterminated_result =
     Inr (unterminated_files(''u_mod.inp'' \<mapsto> ''*Material, name=A\<newline>*Elastic\<newline>1,0.\<newline>''))"
proof -
  have a: "readlines unterminated_text =
      [''*Material, name=A\<newline>'', ''*Elastic\<newline>'', ''1,0.3'']"
    by code_simp
  have b: "split_comma ''1,0.3'' = [''1'', ''0.3'']" by code_simp
  have c: "Material_read unterminated_files ''u.inp'' (Material_init True) =
      (None, unterminated_result)"
    by code_simp
  have d: "materials unterminated_result = [(''A'', [(''Elastic'', [[''1'', ''0.'']])])]"
    by code_simp
  have p: "materials unterminated_result \<noteq> []" "state_read unterminated_result"
    "state_begin unterminated_result = Some 0" "state_end unterminated_result = Some 2"
    "unterminated_files (inp_file unterminated_result) = Some unterminated_text"
    by code_simp+
  have c1: "out_path None (inp_file unterminated_result) = ''u_mod.inp''" by code_simp
  have c2: "concat ((if 0 \<le> (0::int) then take (nat 0) (readlines unterminated_text)
                        else take (length (readlines unterminated_text) - nat (- 0))
                               (readlines unterminated_text)) @
                       Material_format unterminated_result @
                       (if 0 \<le> (2::int) + 1 then drop (nat (2 + 1)) (readlines unterminated_text)
                        else drop (length (readlines unterminated_text) - nat (- (2 + 1)))
                               (readlines unterminated_text)))
     = ''*Material, name=A\<newline>*Elastic\<newline>1,0.\<newline>''"
    by code_simp
  from write_splice [where fs = unterminated_files and m = unterminated_result
        and listdir = "[]" and output_file = None, OF p]
  have e: "Material_write [] unterminated_files None unterminated_result =
     Inr (unterminated_files(''u_mod.inp'' \<mapsto> ''*Material, name=A\<newline>*Elastic\<newline>1,0.\<newline>''))"
    unfolding c1 c2 .
  from a b c d e show ?thesis by (intro conjI)
qed

end
